theory Spec2Isabelle
  imports Main "HOL-Library.Word" "HOL-Library.AList" "HOL-Library.Multiset"
begin

unbundle bit_operations_syntax

section \<open>Library functions the two scripts call\<close>

subsection \<open>Strings and their UTF-8 encoding\<close>

text \<open>
  A Python \<open>str\<close> is a sequence of code points. The model covers the code points
  0 to 255 (ASCII and Latin-1), one \<^typ>\<open>char\<close> each. \<open>str.encode()\<close> is UTF-8:
  a code point below 128 is one byte, the others here are two.
\<close>

definition utf8_char :: "char \<Rightarrow> 8 word list" where
  "utf8_char c =
     (let n = (of_char c :: nat) in
      if n < 128 then [of_nat n]
      else [of_nat (192 + n div 64), of_nat (128 + n mod 64)])"

definition encode :: "string \<Rightarrow> 8 word list" where
  "encode s = concat (map utf8_char s)"

subsection \<open>hashlib.md5\<close>

text \<open>
  MD5 as RFC 1321 defines it: the message is padded to a multiple of 64 bytes, each
  block runs 64 steps over four 32-bit words, and the digest is printed as 32 lower-case
  hexadecimal digits.
\<close>

definition md5_K :: "32 word list" where
  "md5_K =
    [0xd76aa478, 0xe8c7b756, 0x242070db, 0xc1bdceee,
     0xf57c0faf, 0x4787c62a, 0xa8304613, 0xfd469501,
     0x698098d8, 0x8b44f7af, 0xffff5bb1, 0x895cd7be,
     0x6b901122, 0xfd987193, 0xa679438e, 0x49b40821,
     0xf61e2562, 0xc040b340, 0x265e5a51, 0xe9b6c7aa,
     0xd62f105d, 0x2441453, 0xd8a1e681, 0xe7d3fbc8,
     0x21e1cde6, 0xc33707d6, 0xf4d50d87, 0x455a14ed,
     0xa9e3e905, 0xfcefa3f8, 0x676f02d9, 0x8d2a4c8a,
     0xfffa3942, 0x8771f681, 0x6d9d6122, 0xfde5380c,
     0xa4beea44, 0x4bdecfa9, 0xf6bb4b60, 0xbebfbc70,
     0x289b7ec6, 0xeaa127fa, 0xd4ef3085, 0x4881d05,
     0xd9d4d039, 0xe6db99e5, 0x1fa27cf8, 0xc4ac5665,
     0xf4292244, 0x432aff97, 0xab9423a7, 0xfc93a039,
     0x655b59c3, 0x8f0ccc92, 0xffeff47d, 0x85845dd1,
     0x6fa87e4f, 0xfe2ce6e0, 0xa3014314, 0x4e0811a1,
     0xf7537e82, 0xbd3af235, 0x2ad7d2bb, 0xeb86d391]"

definition md5_S :: "nat list" where
  "md5_S =
    [7, 12, 17, 22, 7, 12, 17, 22, 7, 12, 17, 22, 7, 12, 17, 22,
     5, 9, 14, 20, 5, 9, 14, 20, 5, 9, 14, 20, 5, 9, 14, 20,
     4, 11, 16, 23, 4, 11, 16, 23, 4, 11, 16, 23, 4, 11, 16, 23,
     6, 10, 15, 21, 6, 10, 15, 21, 6, 10, 15, 21, 6, 10, 15, 21]"

definition md5_pad :: "8 word list \<Rightarrow> 8 word list" where
  "md5_pad bs =
     bs @ [0x80] @ replicate ((55 + 64 - length bs mod 64) mod 64) 0
     @ map (\<lambda>i. ucast (drop_bit (8 * i) (word_of_nat (8 * length bs) :: 64 word))) [0..<8]"

definition le32 :: "8 word list \<Rightarrow> 32 word" where
  "le32 bs = foldr (\<lambda>b w. ucast b OR push_bit 8 w) bs 0"

fun chunks :: "nat \<Rightarrow> nat \<Rightarrow> 'a list \<Rightarrow> 'a list list" where
  "chunks 0 k xs = []"
| "chunks (Suc n) k xs = take k xs # chunks n k (drop k xs)"

type_synonym md5_state = "32 word \<times> 32 word \<times> 32 word \<times> 32 word"

definition md5_step :: "32 word list \<Rightarrow> md5_state \<Rightarrow> nat \<Rightarrow> md5_state" where
  "md5_step M st i =
     (case st of (A, B, C, D) \<Rightarrow>
        let (F, g) =
          (if i < 16 then ((B AND C) OR (NOT B AND D), i)
           else if i < 32 then ((D AND B) OR (NOT D AND C), (5 * i + 1) mod 16)
           else if i < 48 then (B XOR C XOR D, (3 * i + 5) mod 16)
           else (C XOR (B OR NOT D), (7 * i) mod 16));
          F' = F + A + md5_K ! i + M ! g
        in (D, B + word_rotl (md5_S ! i) F', B, C))"

definition md5_block :: "md5_state \<Rightarrow> 8 word list \<Rightarrow> md5_state" where
  "md5_block h blk =
     (case h of (a0, b0, c0, d0) \<Rightarrow>
        case foldl (md5_step (map le32 (chunks 16 4 blk))) h [0..<64] of
          (A, B, C, D) \<Rightarrow> (a0 + A, b0 + B, c0 + C, d0 + D))"

definition hexchar :: "nat \<Rightarrow> char" where
  "hexchar n = ''0123456789abcdef'' ! n"

definition hex8 :: "8 word \<Rightarrow> string" where
  "hex8 b = [hexchar (unat b div 16), hexchar (unat b mod 16)]"

definition bytes32 :: "32 word \<Rightarrow> 8 word list" where
  "bytes32 w = map (\<lambda>i. ucast (drop_bit (8 * i) w)) [0..<4]"

definition md5_hexdigest :: "8 word list \<Rightarrow> string" where
  "md5_hexdigest bs =
     (let p = md5_pad bs in
      case foldl md5_block (0x67452301, 0xefcdab89, 0x98badcfe, 0x10325476)
             (chunks (length p div 64) 64 p) of
        (a, b, c, d) \<Rightarrow> concat (map hex8 (concat (map bytes32 [a, b, c, d]))))"

text \<open>\<open>hashlib.md5(s.encode()).hexdigest()[:12]\<close>, the signature both scripts use.\<close>

definition md5_12 :: "string \<Rightarrow> string" where
  "md5_12 s = take 12 (md5_hexdigest (encode s))"

section \<open>The alert deduplication engine (alert\_deduplicator.py)\<close>

text \<open>
  A \<open>datetime\<close> is modelled by its number of microseconds since the epoch and a
  \<open>timedelta\<close> by its number of microseconds, both \<^typ>\<open>int\<close>: the difference and
  the comparison of naive \<open>datetime\<close>s are exact in Python.
\<close>

type_synonym datetime = int
type_synonym timedelta = int

definition minutes :: "int \<Rightarrow> timedelta" where
  "minutes m = m * 60 * 1000000"

datatype AlertSeverity = CRITICAL | WARNING | INFO

fun severity_value :: "AlertSeverity \<Rightarrow> string" where
  "severity_value CRITICAL = ''critical''"
| "severity_value WARNING = ''warning''"
| "severity_value INFO = ''info''"

record Alert =
  alert_id :: string
  alert_name :: string
  alert_severity :: AlertSeverity
  alert_service :: string
  alert_message :: string
  alert_timestamp :: datetime
  alert_labels :: "(string \<times> string) list"

record AlertGroup =
  group_signature :: string
  group_name :: string
  group_severity :: AlertSeverity
  group_count :: int
  group_first_seen :: datetime
  group_last_seen :: datetime
  group_services :: "string list"
  group_alerts :: "Alert list"

text \<open>
  The state of an \<open>AlertDeduplicator\<close>. A Python \<open>dict\<close> keeps its keys in insertion
  order: it is an association list with distinct keys, read with \<^const>\<open>map_of\<close> and
  written with \<^const>\<open>AList.update\<close> (in place for a key it has, at the end for a new one).
\<close>

record AlertDeduplicator =
  groups :: "(string \<times> AlertGroup) list"
  suppressed_count :: int

definition SUPPRESSION_WINDOW :: timedelta where
  "SUPPRESSION_WINDOW = minutes 5"

definition init_deduplicator :: AlertDeduplicator where
  "init_deduplicator = \<lparr>groups = [], suppressed_count = 0\<rparr>"

definition get_signature :: "Alert \<Rightarrow> string" where
  "get_signature alert =
     md5_12 (alert_name alert @ ''|'' @ severity_value (alert_severity alert))"

text \<open>\<open>process_alert\<close> returns whether the alert is sent, and the updated state.\<close>

definition process_alert :: "Alert \<Rightarrow> AlertDeduplicator \<Rightarrow> bool \<times> AlertDeduplicator" where
  "process_alert alert d =
     (let signature = get_signature alert in
      case map_of (groups d) signature of
        Some grp \<Rightarrow>
          let time_since_last = alert_timestamp alert - group_last_seen grp in
          if time_since_last < SUPPRESSION_WINDOW then
            (False,
             d\<lparr>groups := AList.update signature
                  (grp\<lparr>group_count := group_count grp + 1,
                         group_last_seen := alert_timestamp alert,
                         group_services :=
                           (if alert_service alert \<notin> set (group_services grp)
                            then group_services grp @ [alert_service alert]
                            else group_services grp),
                         group_alerts := group_alerts grp @ [alert]\<rparr>)
                  (groups d),
               suppressed_count := suppressed_count d + 1\<rparr>)
          else
            (True,
             d\<lparr>groups := AList.update signature
                  (grp\<lparr>group_count := group_count grp + 1,
                         group_last_seen := alert_timestamp alert,
                         group_alerts := group_alerts grp @ [alert]\<rparr>)
                  (groups d)\<rparr>)
      | None \<Rightarrow>
          (True,
           d\<lparr>groups := AList.update signature
                \<lparr>group_signature = signature,
                 group_name = alert_name alert,
                 group_severity = alert_severity alert,
                 group_count = 1,
                 group_first_seen = alert_timestamp alert,
                 group_last_seen = alert_timestamp alert,
                 group_services = [alert_service alert],
                 group_alerts = [alert]\<rparr>
                (groups d)\<rparr>))"

text \<open>
  The loop of \<open>main\<close>: the alerts are processed in order; the result lists the
  decision for each alert.
\<close>

fun process_alerts :: "Alert list \<Rightarrow> AlertDeduplicator \<Rightarrow> bool list \<times> AlertDeduplicator" where
  "process_alerts [] d = ([], d)"
| "process_alerts (alert # rest) d =
     (let (sent, d') = process_alert alert d;
          (sents, d'') = process_alerts rest d'
      in (sent # sents, d''))"

text \<open>\<open>get_active_groups\<close> reads the clock: \<open>now\<close> is \<open>datetime.now()\<close>.\<close>

definition get_active_groups :: "datetime \<Rightarrow> AlertDeduplicator \<Rightarrow> AlertGroup list" where
  "get_active_groups now d =
     (let active_window = minutes 30
      in [g \<leftarrow> map snd (groups d). now - group_last_seen g < active_window])"

text \<open>
  The order in which \<open>print_report\<close> lists the active groups:
  \<open>sorted(dedup.get_active_groups(), key=lambda x: x.count, reverse=True)\<close>, a stable
  sort by descending count.
\<close>

definition report_order :: "datetime \<Rightarrow> AlertDeduplicator \<Rightarrow> AlertGroup list" where
  "report_order now d = sort_key (\<lambda>g. - group_count g) (get_active_groups now d)"

section \<open>The log classifier (log\_classifier.py)\<close>

subsection \<open>The regular expressions of \<open>re\<close> that the script uses\<close>

text \<open>
  The character classes of \<open>re\<close> on a \<open>str\<close> pattern, for the code points 0 to 255:
  \<open>\d\<close> is a decimal digit, \<open>[0-9a-f]\<close> a lower-case hexadecimal digit, and
  \<open>\w\<close> a letter, a digit, a numeric character or the underscore.
\<close>

definition is_digit :: "char \<Rightarrow> bool" where
  "is_digit c = (let n = (of_char c :: nat) in 48 \<le> n \<and> n \<le> 57)"

definition is_hex_lower :: "char \<Rightarrow> bool" where
  "is_hex_lower c = (let n = (of_char c :: nat) in (48 \<le> n \<and> n \<le> 57) \<or> (97 \<le> n \<and> n \<le> 102))"

definition is_word :: "char \<Rightarrow> bool" where
  "is_word c =
     (let n = (of_char c :: nat) in
      (48 \<le> n \<and> n \<le> 57) \<or> (65 \<le> n \<and> n \<le> 90) \<or> n = 95 \<or> (97 \<le> n \<and> n \<le> 122)
      \<or> n = 170 \<or> n = 178 \<or> n = 179 \<or> n = 181 \<or> n = 185 \<or> n = 186
      \<or> (188 \<le> n \<and> n \<le> 190) \<or> (192 \<le> n \<and> n \<le> 214) \<or> (216 \<le> n \<and> n \<le> 246)
      \<or> 248 \<le> n)"

text \<open>
  A pattern is a sequence of items: one character of a class, a class repeated a fixed
  number of times (\<open>\d{4}\<close>), a class repeated once or more (\<open>\d+\<close>, greedy), or
  the word boundary \<open>\b\<close>.
\<close>

datatype cls = Digit | HexLower | Lit char

datatype item = One cls | Times nat cls | Plus cls | WordB

type_synonym pattern = "item list"

fun cls_ok :: "cls \<Rightarrow> char \<Rightarrow> bool" where
  "cls_ok Digit c = is_digit c"
| "cls_ok HexLower c = is_hex_lower c"
| "cls_ok (Lit l) c = (c = l)"

text \<open>
  \<open>\b\<close> holds between the previous character and the next one when exactly one of
  them is a word character; the start and the end of the string count as non-word.
\<close>

fun is_word_opt :: "char option \<Rightarrow> bool" where
  "is_word_opt None = False"
| "is_word_opt (Some c) = is_word c"

fun first_opt :: "string \<Rightarrow> char option" where
  "first_opt [] = None"
| "first_opt (c # cs) = Some c"

definition word_boundary :: "char option \<Rightarrow> string \<Rightarrow> bool" where
  "word_boundary prev s = (is_word_opt prev \<noteq> is_word_opt (first_opt s))"

text \<open>
  The backtracking matcher: \<open>rmatch r prev s\<close> is the length of the match of \<open>r\<close> at
  the start of \<open>s\<close>, where \<open>prev\<close> is the character before it. A greedy \<open>+\<close> first
  tries one more repetition and falls back to the rest of the pattern.
\<close>

fun rmatch :: "pattern \<Rightarrow> char option \<Rightarrow> string \<Rightarrow> nat option" where
  "rmatch [] prev s = Some 0"
| "rmatch (WordB # r) prev s = (if word_boundary prev s then rmatch r prev s else None)"
| "rmatch (One c # r) prev [] = None"
| "rmatch (One c # r) prev (x # xs) =
     (if cls_ok c x then map_option Suc (rmatch r (Some x) xs) else None)"
| "rmatch (Times 0 c # r) prev s = rmatch r prev s"
| "rmatch (Times (Suc n) c # r) prev [] = None"
| "rmatch (Times (Suc n) c # r) prev (x # xs) =
     (if cls_ok c x then map_option Suc (rmatch (Times n c # r) (Some x) xs) else None)"
| "rmatch (Plus c # r) prev [] = None"
| "rmatch (Plus c # r) prev (x # xs) =
     (if cls_ok c x then
        (case rmatch (Plus c # r) (Some x) xs of
           Some n \<Rightarrow> Some (Suc n)
         | None \<Rightarrow> map_option Suc (rmatch r (Some x) xs))
      else None)"

text \<open>\<open>re.search\<close>: is there a match at some position, scanning from the left?\<close>

fun search_from :: "pattern \<Rightarrow> char option \<Rightarrow> string \<Rightarrow> bool" where
  "search_from r prev [] = (rmatch r prev [] \<noteq> None)"
| "search_from r prev (x # xs) = (rmatch r prev (x # xs) \<noteq> None \<or> search_from r (Some x) xs)"

definition re_search :: "pattern \<Rightarrow> string \<Rightarrow> bool" where
  "re_search r s = search_from r None s"

text \<open>
  \<open>re.sub\<close>: the non-overlapping matches, leftmost first, are replaced. The scan is
  written over any matcher \<open>m\<close>; a position with no match, or with an empty one (the
  patterns of the script have none), keeps its character.
\<close>

type_synonym matcher = "char option \<Rightarrow> string \<Rightarrow> nat option"

fun sub_from :: "matcher \<Rightarrow> string \<Rightarrow> char option \<Rightarrow> string \<Rightarrow> string" where
  "sub_from m rep prev [] = []"
| "sub_from m rep prev (x # xs) =
     (case m prev (x # xs) of
        Some (Suc n) \<Rightarrow> rep @ sub_from m rep (Some ((x # xs) ! n)) (drop n xs)
      | _ \<Rightarrow> x # sub_from m rep (Some x) xs)"

definition re_sub :: "pattern \<Rightarrow> string \<Rightarrow> string \<Rightarrow> string" where
  "re_sub r rep s = sub_from (rmatch r) rep None s"

text \<open>\<open>str.lower\<close> on the code points 0 to 255.\<close>

definition lower_char :: "char \<Rightarrow> char" where
  "lower_char c =
     (let n = (of_char c :: nat) in
      if (65 \<le> n \<and> n \<le> 90) \<or> (192 \<le> n \<and> n \<le> 214) \<or> (216 \<le> n \<and> n \<le> 222)
      then char_of (n + 32) else c)"

definition lower :: "string \<Rightarrow> string" where
  "lower s = map lower_char s"

subsection \<open>The classifier\<close>

datatype LogLevel = DEBUG | INFO_LEVEL | WARNING_LEVEL | ERROR | CRITICAL_LEVEL

record LogEntry =
  entry_timestamp :: datetime
  entry_level :: LogLevel
  entry_service :: string
  entry_message :: string
  entry_trace_id :: "string option"

record ErrorCluster =
  cluster_pattern :: string
  cluster_signature :: string
  cluster_count :: int
  cluster_first_seen :: datetime
  cluster_last_seen :: datetime
  cluster_samples :: "LogEntry list"
  cluster_is_noise :: bool

record LogClassifier =
  clusters :: "(string \<times> ErrorCluster) list"
  noise_count :: int

definition init_classifier :: LogClassifier where
  "init_classifier = \<lparr>clusters = [], noise_count = 0\<rparr>"

text \<open>A pattern without metacharacters matches its own characters.\<close>

definition literal :: "string \<Rightarrow> pattern" where
  "literal s = map (\<lambda>c. One (Lit c)) s"

definition NOISE_PATTERNS :: "pattern list" where
  "NOISE_PATTERNS =
     [literal ''health check'',
      literal ''connection reset by peer'',
      literal ''context canceled'',
      literal ''request canceled'',
      literal ''EOF'']"

definition date_pattern :: pattern where
  "date_pattern = [Times 4 Digit, One (Lit CHR ''-''), Times 2 Digit, One (Lit CHR ''-''), Times 2 Digit]"

definition time_pattern :: pattern where
  "time_pattern = [Times 2 Digit, One (Lit CHR '':''), Times 2 Digit, One (Lit CHR '':''), Times 2 Digit]"

definition uuid_pattern :: pattern where
  "uuid_pattern =
     [WordB, Times 8 HexLower, One (Lit CHR ''-''), Times 4 HexLower, One (Lit CHR ''-''),
      Times 4 HexLower, One (Lit CHR ''-''), Times 4 HexLower, One (Lit CHR ''-''),
      Times 12 HexLower, WordB]"

definition ip_pattern :: pattern where
  "ip_pattern =
     [WordB, Plus Digit, One (Lit CHR ''.''), Plus Digit, One (Lit CHR ''.''),
      Plus Digit, One (Lit CHR ''.''), Plus Digit, WordB]"

definition num_pattern :: pattern where
  "num_pattern = [WordB, Plus Digit, WordB]"

definition NORMALIZE_PATTERNS :: "(pattern \<times> string) list" where
  "NORMALIZE_PATTERNS =
     [(date_pattern, ''<DATE>''),
      (time_pattern, ''<TIME>''),
      (uuid_pattern, ''<UUID>''),
      (ip_pattern, ''<IP>''),
      (num_pattern, ''<NUM>'')]"

definition is_noise :: "LogEntry \<Rightarrow> bool" where
  "is_noise entry =
     (let msg_lower = lower (entry_message entry)
      in list_ex (\<lambda>p. re_search p msg_lower) NOISE_PATTERNS)"

definition normalize_message :: "string \<Rightarrow> string" where
  "normalize_message message =
     foldl (\<lambda>result (pattern, replacement). re_sub pattern replacement result)
       message NORMALIZE_PATTERNS"

text \<open>
  \<open>classify\<close> returns the signature of the entry's cluster (\<open>None\<close> for noise), and
  the updated state.
\<close>

definition classify :: "LogEntry \<Rightarrow> LogClassifier \<Rightarrow> string option \<times> LogClassifier" where
  "classify entry c =
     (if is_noise entry then (None, c\<lparr>noise_count := noise_count c + 1\<rparr>)
      else
        let normalized = normalize_message (entry_message entry);
            signature = md5_12 normalized
        in (Some signature,
            (case map_of (clusters c) signature of
               Some cluster \<Rightarrow>
                 c\<lparr>clusters := AList.update signature
                      (cluster\<lparr>cluster_count := cluster_count cluster + 1,
                               cluster_last_seen := entry_timestamp entry,
                               cluster_samples :=
                                 (if length (cluster_samples cluster) < 3
                                  then cluster_samples cluster @ [entry]
                                  else cluster_samples cluster)\<rparr>)
                      (clusters c)\<rparr>
             | None \<Rightarrow>
                 c\<lparr>clusters := AList.update signature
                      \<lparr>cluster_pattern = normalized,
                       cluster_signature = signature,
                       cluster_count = 1,
                       cluster_first_seen = entry_timestamp entry,
                       cluster_last_seen = entry_timestamp entry,
                       cluster_samples = [entry],
                       cluster_is_noise = False\<rparr>
                      (clusters c)\<rparr>)))"

text \<open>The loop of \<open>main\<close> over the entries.\<close>

fun classify_all :: "LogEntry list \<Rightarrow> LogClassifier \<Rightarrow> string option list \<times> LogClassifier" where
  "classify_all [] c = ([], c)"
| "classify_all (entry # rest) c =
     (let (sig, c') = classify entry c;
          (sigs, c'') = classify_all rest c'
      in (sig # sigs, c''))"

definition get_actionable_errors :: "int \<Rightarrow> LogClassifier \<Rightarrow> ErrorCluster list" where
  "get_actionable_errors min_count c =
     [cl \<leftarrow> map snd (clusters c). \<not> cluster_is_noise cl \<and> cluster_count cl \<ge> min_count]"

section \<open>The two engines, one signature at a time\<close>

text \<open>
  What \<open>process_alert\<close> does to the group of the alert's signature, given the group
  the store holds for it (or none), and the decision it returns.
\<close>

definition upsert_group :: "Alert \<Rightarrow> AlertGroup option \<Rightarrow> AlertGroup" where
  "upsert_group alert go =
     (case go of
        None \<Rightarrow>
          \<lparr>group_signature = get_signature alert,
           group_name = alert_name alert,
           group_severity = alert_severity alert,
           group_count = 1,
           group_first_seen = alert_timestamp alert,
           group_last_seen = alert_timestamp alert,
           group_services = [alert_service alert],
           group_alerts = [alert]\<rparr>
      | Some grp \<Rightarrow>
          if alert_timestamp alert - group_last_seen grp < SUPPRESSION_WINDOW then
            grp\<lparr>group_count := group_count grp + 1,
                group_last_seen := alert_timestamp alert,
                group_services :=
                  (if alert_service alert \<notin> set (group_services grp)
                   then group_services grp @ [alert_service alert]
                   else group_services grp),
                group_alerts := group_alerts grp @ [alert]\<rparr>
          else
            grp\<lparr>group_count := group_count grp + 1,
                group_last_seen := alert_timestamp alert,
                group_alerts := group_alerts grp @ [alert]\<rparr>)"

definition upsert_sent :: "Alert \<Rightarrow> AlertGroup option \<Rightarrow> bool" where
  "upsert_sent alert go =
     (case go of
        None \<Rightarrow> True
      | Some grp \<Rightarrow> \<not> alert_timestamp alert - group_last_seen grp < SUPPRESSION_WINDOW)"

text \<open>A sample alert, for the concrete runs below.\<close>

definition sample_alert :: "string \<Rightarrow> AlertSeverity \<Rightarrow> string \<Rightarrow> int \<Rightarrow> Alert" where
  "sample_alert n sv svc secs =
     \<lparr>alert_id = ''alert-0000'', alert_name = n, alert_severity = sv, alert_service = svc,
      alert_message = ''Error rate > 5%'', alert_timestamp = secs * 1000000, alert_labels = []\<rparr>"

text \<open>
  The group of a signature after its alerts \<open>ms\<close> have been processed in order, and the
  decisions they received, starting from the group \<open>go\<close> (or none).
\<close>

fun group_after :: "Alert list \<Rightarrow> AlertGroup option \<Rightarrow> AlertGroup option" where
  "group_after [] go = go"
| "group_after (a # ms) go = group_after ms (Some (upsert_group a go))"

fun sents_after :: "Alert list \<Rightarrow> AlertGroup option \<Rightarrow> bool list" where
  "sents_after [] go = []"
| "sents_after (a # ms) go = upsert_sent a go # sents_after ms (Some (upsert_group a go))"

text \<open>The same for the classifier: the signature of an entry and the cluster it updates.\<close>

definition entry_signature :: "LogEntry \<Rightarrow> string" where
  "entry_signature entry = md5_12 (normalize_message (entry_message entry))"

definition upsert_cluster :: "LogEntry \<Rightarrow> ErrorCluster option \<Rightarrow> ErrorCluster" where
  "upsert_cluster entry co =
     (case co of
        None \<Rightarrow>
          \<lparr>cluster_pattern = normalize_message (entry_message entry),
           cluster_signature = entry_signature entry,
           cluster_count = 1,
           cluster_first_seen = entry_timestamp entry,
           cluster_last_seen = entry_timestamp entry,
           cluster_samples = [entry],
           cluster_is_noise = False\<rparr>
      | Some cluster \<Rightarrow>
          cluster\<lparr>cluster_count := cluster_count cluster + 1,
                  cluster_last_seen := entry_timestamp entry,
                  cluster_samples :=
                    (if length (cluster_samples cluster) < 3
                     then cluster_samples cluster @ [entry]
                     else cluster_samples cluster)\<rparr>)"

fun cluster_after :: "LogEntry list \<Rightarrow> ErrorCluster option \<Rightarrow> ErrorCluster option" where
  "cluster_after [] co = co"
| "cluster_after (e # ms) co = cluster_after ms (Some (upsert_cluster e co))"

text \<open>The alerts of a signature and the entries of a cluster, in processing order.\<close>

definition alerts_of :: "string \<Rightarrow> Alert list \<Rightarrow> Alert list" where
  "alerts_of s xs = [a \<leftarrow> xs. get_signature a = s]"

definition entries_of :: "string \<Rightarrow> LogEntry list \<Rightarrow> LogEntry list" where
  "entries_of s xs = [e \<leftarrow> xs. \<not> is_noise e \<and> entry_signature e = s]"

definition sample_entry :: "string \<Rightarrow> int \<Rightarrow> LogEntry" where
  "sample_entry msg secs =
     \<lparr>entry_timestamp = secs * 1000000, entry_level = ERROR, entry_service = ''api'',
      entry_message = msg, entry_trace_id = Some ''trace-1000''\<rparr>"

section \<open>Vocabulary for the normalizer's matches\<close>

text \<open>
  The characters the five normalization patterns can consume: lower-case hexadecimal
  digits and the separators of dates, times, UUIDs and addresses. No character of a
  replacement (\<open><DATE>\<close>, \<open><TIME>\<close>, \<open><UUID>\<close>, \<open><IP>\<close>, \<open><NUM>\<close>) is one.
\<close>

definition pat_char :: "char \<Rightarrow> bool" where
  "pat_char c = (is_hex_lower c \<or> c = CHR ''-'' \<or> c = CHR '':'' \<or> c = CHR ''.'')"

definition rep_ok :: "string \<Rightarrow> bool" where
  "rep_ok rep = (rep \<noteq> [] \<and> list_all (\<lambda>c. \<not> pat_char c) rep)"

text \<open>The character before position \<open>length u\<close>, when \<open>u\<close> is what precedes it.\<close>

definition last_opt :: "char option \<Rightarrow> string \<Rightarrow> char option" where
  "last_opt prev u = (if u = [] then prev else Some (last u))"

text \<open>
  What the proofs need of a matcher: it matches exactly the prefixes of a given shape,
  a shape being a set of non-empty strings of pattern characters. A bounded matcher
  (one between two \<open>\b\<close>) also needs a non-word character or an end of the string on
  both sides, and its shapes start and end with a word character.
\<close>

definition matcher_spec :: "bool \<Rightarrow> (string \<Rightarrow> bool) \<Rightarrow> matcher \<Rightarrow> bool" where
  "matcher_spec bnd shape m =
     ((\<forall>p s k. (m p s = Some k) =
         (k \<le> length s \<and> shape (take k s) \<and>
          (bnd \<longrightarrow> \<not> is_word_opt p \<and> \<not> is_word_opt (first_opt (drop k s)))))
      \<and> (\<forall>b. shape b \<longrightarrow>
            b \<noteq> [] \<and> list_all pat_char b \<and> (bnd \<longrightarrow> is_word (hd b) \<and> is_word (last b))))"

text \<open>No position of \<open>s\<close> starts a match of \<open>m\<close>; \<open>prev\<close> is the character before \<open>s\<close>.\<close>

fun nomatch :: "matcher \<Rightarrow> char option \<Rightarrow> string \<Rightarrow> bool" where
  "nomatch m prev [] = True"
| "nomatch m prev (x # xs) = (m prev (x # xs) = None \<and> nomatch m (Some x) xs)"

text \<open>
  The strings a pattern of single characters and fixed repetitions matches, and their
  length.
\<close>

fun fixed :: "pattern \<Rightarrow> bool" where
  "fixed [] = True"
| "fixed (One c # r) = fixed r"
| "fixed (Times n c # r) = fixed r"
| "fixed (Plus c # r) = False"
| "fixed (WordB # r) = False"

fun width :: "pattern \<Rightarrow> nat" where
  "width [] = 0"
| "width (One c # r) = Suc (width r)"
| "width (Times n c # r) = n + width r"
| "width (Plus c # r) = width r"
| "width (WordB # r) = width r"

fun fmatch :: "pattern \<Rightarrow> string \<Rightarrow> bool" where
  "fmatch [] b = (b = [])"
| "fmatch (One c # r) b = (case b of [] \<Rightarrow> False | x # xs \<Rightarrow> cls_ok c x \<and> fmatch r xs)"
| "fmatch (Times n c # r) b = (n \<le> length b \<and> list_all (cls_ok c) (take n b) \<and> fmatch r (drop n b))"
| "fmatch (Plus c # r) b = False"
| "fmatch (WordB # r) b = False"

text \<open>The shapes of the address and number patterns: runs of digits between dots.\<close>

definition digits_then :: "(string \<Rightarrow> bool) \<Rightarrow> string \<Rightarrow> bool" where
  "digits_then T b = (\<exists>ds b'. b = ds @ b' \<and> ds \<noteq> [] \<and> list_all is_digit ds \<and> T b')"

definition dot_then :: "(string \<Rightarrow> bool) \<Rightarrow> string \<Rightarrow> bool" where
  "dot_then T b = (\<exists>b'. b = CHR ''.'' # b' \<and> T b')"

definition ip_shape :: "string \<Rightarrow> bool" where
  "ip_shape =
     digits_then (dot_then (digits_then (dot_then (digits_then (dot_then
       (digits_then (\<lambda>b. b = [])))))))"

definition num_shape :: "string \<Rightarrow> bool" where
  "num_shape = digits_then (\<lambda>b. b = [])"

text \<open>
  What a continuation of a pattern does after a digit: it matches the prefixes of shape
  \<open>T\<close> that are followed by a non-word character or by the end of the string.
\<close>

definition tail_spec :: "(string \<Rightarrow> bool) \<Rightarrow> pattern \<Rightarrow> bool" where
  "tail_spec T r =
     ((\<forall>x s k. is_digit x \<longrightarrow>
         (rmatch r (Some x) s = Some k) =
         (k \<le> length s \<and> T (take k s) \<and> \<not> is_word_opt (first_opt (drop k s))))
      \<and> (\<forall>b. T b \<longrightarrow> list_all pat_char b \<and> (b = [] \<or> (\<not> is_digit (hd b) \<and> is_digit (last b)))))"

text \<open>A pattern whose classes accept pattern characters only.\<close>

fun cls_pat :: "cls \<Rightarrow> bool" where
  "cls_pat Digit = True"
| "cls_pat HexLower = True"
| "cls_pat (Lit l) = pat_char l"

fun item_pat :: "item \<Rightarrow> bool" where
  "item_pat (One c) = cls_pat c"
| "item_pat (Times n c) = cls_pat c"
| "item_pat (Plus c) = cls_pat c"
| "item_pat WordB = True"

text \<open>The UUID pattern between its two \<open>\b\<close>.\<close>

definition uuid_core :: pattern where
  "uuid_core =
     [Times 8 HexLower, One (Lit CHR ''-''), Times 4 HexLower, One (Lit CHR ''-''),
      Times 4 HexLower, One (Lit CHR ''-''), Times 4 HexLower, One (Lit CHR ''-''),
      Times 12 HexLower]"

section \<open>Events with missing or unusable fields\<close>

text \<open>
  Python does not check the annotations of a dataclass: any field of an \<open>Alert\<close> or a
  \<open>LogEntry\<close> can hold \<open>None\<close>, and the groups copy what the events hold. A value of
  the annotated type can make the code raise too: a \<open>str\<close> can hold a lone surrogate
  (a code point from D800 to DFFF), which \<open>str.encode()\<close> refuses, and a \<open>datetime\<close>
  can be aware, which cannot be subtracted from a naive one. This section repeats
  \<open>process_alert\<close> and \<open>classify\<close> over such values, with the exceptions Python
  raises. The result of a call is the returned value or the exception, and the state
  the call leaves behind.
\<close>

datatype py_error = AttributeError | TypeError | UnicodeEncodeError

text \<open>
  A character is one of the code points 0 to 255 or a lone surrogate, given by its code
  point. A surrogate is no digit, no word character and has no lower case.
\<close>

datatype py_char = Ch char | Surrogate nat

type_synonym py_string = "py_char list"

definition py_text :: "string \<Rightarrow> py_string" where
  "py_text s = map Ch s"

fun py_chars :: "py_string \<Rightarrow> string option" where
  "py_chars [] = Some []"
| "py_chars (Ch c # s) = map_option ((#) c) (py_chars s)"
| "py_chars (Surrogate n # s) = None"

text \<open>\<open>s.encode()\<close> raises \<open>UnicodeEncodeError\<close> when \<open>s\<close> holds a surrogate.\<close>

definition py_encode :: "py_string \<Rightarrow> py_error + 8 word list" where
  "py_encode s =
     (case py_chars s of None \<Rightarrow> Inl UnicodeEncodeError | Some cs \<Rightarrow> Inr (encode cs))"

text \<open>\<open>hashlib.md5(s.encode()).hexdigest()[:12]\<close>.\<close>

definition py_md5_12 :: "py_string \<Rightarrow> py_error + string" where
  "py_md5_12 s =
     (case py_encode s of Inl e \<Rightarrow> Inl e | Inr bs \<Rightarrow> Inr (take 12 (md5_hexdigest bs)))"

text \<open>
  A \<open>datetime\<close> is naive, given by its microseconds, or aware (of a zone with a fixed
  offset), given by the microseconds of its instant in UTC. The difference of two
  naive or of two aware ones is a \<open>timedelta\<close>; every other subtraction, also with
  \<open>None\<close>, raises \<open>TypeError\<close>.
\<close>

datatype py_datetime = Naive int | Aware int

fun py_minus :: "py_datetime option \<Rightarrow> py_datetime option \<Rightarrow> py_error + timedelta" where
  "py_minus (Some (Naive a)) (Some (Naive b)) = Inr (a - b)"
| "py_minus (Some (Aware a)) (Some (Aware b)) = Inr (a - b)"
| "py_minus x y = Inl TypeError"

record PyAlert =
  py_id :: "py_string option"
  py_name :: "py_string option"
  py_severity :: "AlertSeverity option"
  py_service :: "py_string option"
  py_message :: "py_string option"
  py_timestamp :: "py_datetime option"
  py_labels :: "(string \<times> string) list"

record PyAlertGroup =
  pg_signature :: string
  pg_name :: "py_string option"
  pg_severity :: "AlertSeverity option"
  pg_count :: int
  pg_first_seen :: "py_datetime option"
  pg_last_seen :: "py_datetime option"
  pg_services :: "py_string option list"
  pg_alerts :: "PyAlert list"

record PyDeduplicator =
  py_groups :: "(string \<times> PyAlertGroup) list"
  py_suppressed_count :: int

text \<open>An f-string prints \<open>None\<close> as ``None''.\<close>

fun py_str :: "py_string option \<Rightarrow> py_string" where
  "py_str None = py_text ''None''"
| "py_str (Some s) = s"

text \<open>
  \<open>_get_signature\<close>: the f-string reads \<open>alert.name\<close> and then
  \<open>alert.severity.value\<close>, which raises \<open>AttributeError\<close> for \<open>None\<close>; the
  fingerprint is then encoded and hashed.
\<close>

definition py_get_signature :: "PyAlert \<Rightarrow> py_error + string" where
  "py_get_signature alert =
     (case py_severity alert of
        None \<Rightarrow> Inl AttributeError
      | Some sv \<Rightarrow> py_md5_12 (py_str (py_name alert) @ py_text (''|'' @ severity_value sv)))"

definition py_process_alert ::
  "PyAlert \<Rightarrow> PyDeduplicator \<Rightarrow> (py_error + bool) \<times> PyDeduplicator" where
  "py_process_alert alert d =
     (case py_get_signature alert of
        Inl e \<Rightarrow> (Inl e, d)
      | Inr signature \<Rightarrow>
         (case map_of (py_groups d) signature of
            Some grp \<Rightarrow>
              (case py_minus (py_timestamp alert) (pg_last_seen grp) of
                 Inl e \<Rightarrow> (Inl e, d)
               | Inr time_since_last \<Rightarrow>
                   if time_since_last < SUPPRESSION_WINDOW then
                     (Inr False,
                      d\<lparr>py_groups := AList.update signature
                           (grp\<lparr>pg_count := pg_count grp + 1,
                                  pg_last_seen := py_timestamp alert,
                                  pg_services :=
                                    (if py_service alert \<notin> set (pg_services grp)
                                     then pg_services grp @ [py_service alert]
                                     else pg_services grp),
                                  pg_alerts := pg_alerts grp @ [alert]\<rparr>)
                           (py_groups d),
                        py_suppressed_count := py_suppressed_count d + 1\<rparr>)
                   else
                     (Inr True,
                      d\<lparr>py_groups := AList.update signature
                           (grp\<lparr>pg_count := pg_count grp + 1,
                                  pg_last_seen := py_timestamp alert,
                                  pg_alerts := pg_alerts grp @ [alert]\<rparr>)
                           (py_groups d)\<rparr>))
          | None \<Rightarrow>
              (Inr True,
               d\<lparr>py_groups := AList.update signature
                    \<lparr>pg_signature = signature,
                     pg_name = py_name alert,
                     pg_severity = py_severity alert,
                     pg_count = 1,
                     pg_first_seen = py_timestamp alert,
                     pg_last_seen = py_timestamp alert,
                     pg_services = [py_service alert],
                     pg_alerts = [alert]\<rparr>
                    (py_groups d)\<rparr>)))"

subsection \<open>The regular expressions over strings with surrogates\<close>

text \<open>
  The matcher, \<open>re.search\<close>, \<open>re.sub\<close> and \<open>str.lower\<close> as above, on the wider
  strings: no class accepts a surrogate, and \<open>\b\<close> takes it for a non-word character.
\<close>

fun py_cls_ok :: "cls \<Rightarrow> py_char \<Rightarrow> bool" where
  "py_cls_ok c (Ch x) = cls_ok c x"
| "py_cls_ok c (Surrogate n) = False"

fun py_is_word_opt :: "py_char option \<Rightarrow> bool" where
  "py_is_word_opt None = False"
| "py_is_word_opt (Some (Ch x)) = is_word x"
| "py_is_word_opt (Some (Surrogate n)) = False"

fun py_first_opt :: "py_string \<Rightarrow> py_char option" where
  "py_first_opt [] = None"
| "py_first_opt (c # cs) = Some c"

definition py_word_boundary :: "py_char option \<Rightarrow> py_string \<Rightarrow> bool" where
  "py_word_boundary prev s = (py_is_word_opt prev \<noteq> py_is_word_opt (py_first_opt s))"

fun py_rmatch :: "pattern \<Rightarrow> py_char option \<Rightarrow> py_string \<Rightarrow> nat option" where
  "py_rmatch [] prev s = Some 0"
| "py_rmatch (WordB # r) prev s = (if py_word_boundary prev s then py_rmatch r prev s else None)"
| "py_rmatch (One c # r) prev [] = None"
| "py_rmatch (One c # r) prev (x # xs) =
     (if py_cls_ok c x then map_option Suc (py_rmatch r (Some x) xs) else None)"
| "py_rmatch (Times 0 c # r) prev s = py_rmatch r prev s"
| "py_rmatch (Times (Suc n) c # r) prev [] = None"
| "py_rmatch (Times (Suc n) c # r) prev (x # xs) =
     (if py_cls_ok c x then map_option Suc (py_rmatch (Times n c # r) (Some x) xs) else None)"
| "py_rmatch (Plus c # r) prev [] = None"
| "py_rmatch (Plus c # r) prev (x # xs) =
     (if py_cls_ok c x then
        (case py_rmatch (Plus c # r) (Some x) xs of
           Some n \<Rightarrow> Some (Suc n)
         | None \<Rightarrow> map_option Suc (py_rmatch r (Some x) xs))
      else None)"

fun py_search_from :: "pattern \<Rightarrow> py_char option \<Rightarrow> py_string \<Rightarrow> bool" where
  "py_search_from r prev [] = (py_rmatch r prev [] \<noteq> None)"
| "py_search_from r prev (x # xs) =
     (py_rmatch r prev (x # xs) \<noteq> None \<or> py_search_from r (Some x) xs)"

definition py_re_search :: "pattern \<Rightarrow> py_string \<Rightarrow> bool" where
  "py_re_search r s = py_search_from r None s"

fun py_sub_from :: "pattern \<Rightarrow> py_string \<Rightarrow> py_char option \<Rightarrow> py_string \<Rightarrow> py_string" where
  "py_sub_from r rep prev [] = []"
| "py_sub_from r rep prev (x # xs) =
     (case py_rmatch r prev (x # xs) of
        Some (Suc n) \<Rightarrow> rep @ py_sub_from r rep (Some ((x # xs) ! n)) (drop n xs)
      | _ \<Rightarrow> x # py_sub_from r rep (Some x) xs)"

definition py_re_sub :: "pattern \<Rightarrow> string \<Rightarrow> py_string \<Rightarrow> py_string" where
  "py_re_sub r rep s = py_sub_from r (py_text rep) None s"

fun py_lower_char :: "py_char \<Rightarrow> py_char" where
  "py_lower_char (Ch x) = Ch (lower_char x)"
| "py_lower_char (Surrogate n) = Surrogate n"

definition py_lower :: "py_string \<Rightarrow> py_string" where
  "py_lower s = map py_lower_char s"

definition py_normalize_message :: "py_string \<Rightarrow> py_string" where
  "py_normalize_message message =
     foldl (\<lambda>result (pattern, replacement). py_re_sub pattern replacement result)
       message NORMALIZE_PATTERNS"

subsection \<open>The classifier over such entries\<close>

record PyLogEntry =
  pe_timestamp :: "py_datetime option"
  pe_level :: "LogLevel option"
  pe_service :: "py_string option"
  pe_message :: "py_string option"
  pe_trace_id :: "py_string option"

record PyErrorCluster =
  pc_pattern :: py_string
  pc_signature :: string
  pc_count :: int
  pc_first_seen :: "py_datetime option"
  pc_last_seen :: "py_datetime option"
  pc_samples :: "PyLogEntry list"
  pc_is_noise :: bool

record PyLogClassifier =
  py_clusters :: "(string \<times> PyErrorCluster) list"
  py_noise_count :: int

text \<open>
  \<open>classify\<close>: \<open>entry.message.lower()\<close> in \<open>_is_noise\<close> raises \<open>AttributeError\<close>
  for \<open>None\<close>, and the normalized message of an entry that is not noise is encoded
  and hashed before the clusters are read.
\<close>

definition py_classify ::
  "PyLogEntry \<Rightarrow> PyLogClassifier \<Rightarrow> (py_error + string option) \<times> PyLogClassifier" where
  "py_classify entry c =
     (case pe_message entry of
        None \<Rightarrow> (Inl AttributeError, c)
      | Some msg \<Rightarrow>
          if list_ex (\<lambda>p. py_re_search p (py_lower msg)) NOISE_PATTERNS
          then (Inr None, c\<lparr>py_noise_count := py_noise_count c + 1\<rparr>)
          else
            let normalized = py_normalize_message msg in
            (case py_md5_12 normalized of
               Inl e \<Rightarrow> (Inl e, c)
             | Inr signature \<Rightarrow>
                 (Inr (Some signature),
                  (case map_of (py_clusters c) signature of
                     Some cluster \<Rightarrow>
                       c\<lparr>py_clusters := AList.update signature
                            (cluster\<lparr>pc_count := pc_count cluster + 1,
                                     pc_last_seen := pe_timestamp entry,
                                     pc_samples :=
                                       (if length (pc_samples cluster) < 3
                                        then pc_samples cluster @ [entry]
                                        else pc_samples cluster)\<rparr>)
                            (py_clusters c)\<rparr>
                   | None \<Rightarrow>
                       c\<lparr>py_clusters := AList.update signature
                            \<lparr>pc_pattern = normalized,
                             pc_signature = signature,
                             pc_count = 1,
                             pc_first_seen = pe_timestamp entry,
                             pc_last_seen = pe_timestamp entry,
                             pc_samples = [entry],
                             pc_is_noise = False\<rparr>
                            (py_clusters c)\<rparr>))))"

subsection \<open>The typed values among them\<close>

text \<open>An event of the typed model: every field present, naive times, no surrogate.\<close>

definition py_alert :: "Alert \<Rightarrow> PyAlert" where
  "py_alert a =
     \<lparr>py_id = Some (py_text (alert_id a)), py_name = Some (py_text (alert_name a)),
      py_severity = Some (alert_severity a), py_service = Some (py_text (alert_service a)),
      py_message = Some (py_text (alert_message a)),
      py_timestamp = Some (Naive (alert_timestamp a)),
      py_labels = alert_labels a\<rparr>"

definition py_group :: "AlertGroup \<Rightarrow> PyAlertGroup" where
  "py_group g =
     \<lparr>pg_signature = group_signature g, pg_name = Some (py_text (group_name g)),
      pg_severity = Some (group_severity g), pg_count = group_count g,
      pg_first_seen = Some (Naive (group_first_seen g)),
      pg_last_seen = Some (Naive (group_last_seen g)),
      pg_services = map (\<lambda>s. Some (py_text s)) (group_services g),
      pg_alerts = map py_alert (group_alerts g)\<rparr>"

definition py_deduplicator :: "AlertDeduplicator \<Rightarrow> PyDeduplicator" where
  "py_deduplicator d =
     \<lparr>py_groups = map (\<lambda>(s, g). (s, py_group g)) (groups d),
      py_suppressed_count = suppressed_count d\<rparr>"

definition py_entry :: "LogEntry \<Rightarrow> PyLogEntry" where
  "py_entry e =
     \<lparr>pe_timestamp = Some (Naive (entry_timestamp e)), pe_level = Some (entry_level e),
      pe_service = Some (py_text (entry_service e)),
      pe_message = Some (py_text (entry_message e)),
      pe_trace_id = map_option py_text (entry_trace_id e)\<rparr>"

definition py_cluster :: "ErrorCluster \<Rightarrow> PyErrorCluster" where
  "py_cluster cl =
     \<lparr>pc_pattern = py_text (cluster_pattern cl), pc_signature = cluster_signature cl,
      pc_count = cluster_count cl, pc_first_seen = Some (Naive (cluster_first_seen cl)),
      pc_last_seen = Some (Naive (cluster_last_seen cl)),
      pc_samples = map py_entry (cluster_samples cl), pc_is_noise = cluster_is_noise cl\<rparr>"

definition py_classifier :: "LogClassifier \<Rightarrow> PyLogClassifier" where
  "py_classifier c =
     \<lparr>py_clusters = map (\<lambda>(s, cl). (s, py_cluster cl)) (clusters c),
      py_noise_count = noise_count c\<rparr>"





section \<open>Known answers of the library model\<close>

text \<open>
  The model of \<open>hashlib.md5\<close> on the test vector of RFC 1321, and the model of
  \<open>re.sub\<close> on a message with one match of every rule: both give what Python gives.
  A digit run that touches a letter (``100ms'') has no \<open>\b\<close> after it and is kept.
\<close>

lemma md5_known_answer: "md5_hexdigest (encode ''abc'') = ''900150983cd24fb0d6963f7d28e17f72''"
  by code_simp

lemma normalize_known_answer:
  "normalize_message
     ''DB timeout after 100ms at 2024-01-02 12:34:56 from 10.0.0.1 id 123e4567-e89b-12d3-a456-426614174000 code 42''
   = ''DB timeout after 100ms at <DATE> <TIME> from <IP> id <UUID> code <NUM>''"
  by code_simp

section \<open>Properties of the alert deduplication engine\<close>

lemma process_alert_upsert:
  "process_alert a d =
     (upsert_sent a (map_of (groups d) (get_signature a)),
      d\<lparr>groups := AList.update (get_signature a)
                    (upsert_group a (map_of (groups d) (get_signature a))) (groups d),
        suppressed_count :=
          suppressed_count d + (if upsert_sent a (map_of (groups d) (get_signature a)) then 0 else 1)\<rparr>)"
  by (simp add: process_alert_def upsert_sent_def upsert_group_def Let_def split: option.split)

lemma groups_process_alert:
  "map_of (groups (snd (process_alert a d))) s =
     (if s = get_signature a then Some (upsert_group a (map_of (groups d) s))
      else map_of (groups d) s)"
  by (simp add: process_alert_upsert update_conv')

lemma sample_alert_simps:
  "alert_name (sample_alert n sv svc t) = n"
  "alert_severity (sample_alert n sv svc t) = sv"
  "alert_service (sample_alert n sv svc t) = svc"
  "alert_timestamp (sample_alert n sv svc t) = t * 1000000"
  by (simp_all add: sample_alert_def)

lemma get_signature_sample:
  "get_signature (sample_alert n sv svc t) = md5_12 (n @ ''|'' @ severity_value sv)"
  by (simp add: get_signature_def sample_alert_simps)

text \<open>
  C1. Two alerts with the same signature, processed one after the other from any state:
  the first leaves a group whose last\_seen is its timestamp. If the second comes less
  than SUPPRESSION\_WINDOW (5 minutes) after that, it is suppressed (\<open>process_alert\<close>
  returns False); if it comes more than the window after, it is sent (True). Either
  way the group's count is one more and its last\_seen is the second timestamp.
\<close>

theorem C1_suppression_window:
  assumes "get_signature a2 = get_signature a1"
  shows "let d1 = snd (process_alert a1 d);
             sent2 = fst (process_alert a2 d1);
             d2 = snd (process_alert a2 d1)
         in \<exists>g1 g2.
              map_of (groups d1) (get_signature a1) = Some g1 \<and>
              map_of (groups d2) (get_signature a1) = Some g2 \<and>
              group_last_seen g1 = alert_timestamp a1 \<and>
              (alert_timestamp a2 - group_last_seen g1 < SUPPRESSION_WINDOW \<longrightarrow> \<not> sent2) \<and>
              (alert_timestamp a2 - group_last_seen g1 > SUPPRESSION_WINDOW \<longrightarrow> sent2) \<and>
              group_count g2 = group_count g1 + 1 \<and>
              group_last_seen g2 = alert_timestamp a2 \<and>
              SUPPRESSION_WINDOW = 5 * 60 * 1000000"
proof -
  define g1 where "g1 = upsert_group a1 (map_of (groups d) (get_signature a1))"
  have d1: "map_of (groups (snd (process_alert a1 d))) (get_signature a1) = Some g1"
    by (simp add: groups_process_alert g1_def)
  have last1: "group_last_seen g1 = alert_timestamp a1"
    by (simp add: g1_def upsert_group_def split: option.split)
  have sent2: "fst (process_alert a2 (snd (process_alert a1 d)))
      = (\<not> alert_timestamp a2 - group_last_seen g1 < SUPPRESSION_WINDOW)"
    using d1 assms by (simp add: process_alert_upsert [of a2] upsert_sent_def)
  define g2 where "g2 = upsert_group a2 (Some g1)"
  have d2: "map_of (groups (snd (process_alert a2 (snd (process_alert a1 d))))) (get_signature a1)
      = Some g2"
    using d1 assms by (simp add: groups_process_alert [of a2] g2_def)
  have g2: "group_count g2 = group_count g1 + 1" "group_last_seen g2 = alert_timestamp a2"
    by (simp_all add: g2_def upsert_group_def)
  have w: "SUPPRESSION_WINDOW = 5 * 60 * 1000000"
    by (simp add: SUPPRESSION_WINDOW_def minutes_def)
  show ?thesis
    unfolding Let_def using d1 d2 last1 sent2 g2 w by auto
qed

text \<open>
  The scenario of the specification: the same alert at 0 s, 60 s and 400 s (more than
  300 s after the second) is sent, suppressed, sent, and the group counts 3.
\<close>

theorem C1_suppression_window_witness:
  "\<not> fst (process_alert (sample_alert ''HighErrorRate'' CRITICAL ''auth'' 60)
        (snd (process_alert (sample_alert ''HighErrorRate'' CRITICAL ''api'' 0) init_deduplicator)))
   \<and> fst (process_alert (sample_alert ''HighErrorRate'' CRITICAL ''api'' 400)
        (snd (process_alert (sample_alert ''HighErrorRate'' CRITICAL ''auth'' 60)
          (snd (process_alert (sample_alert ''HighErrorRate'' CRITICAL ''api'' 0) init_deduplicator)))))"
proof -
  let ?a0 = "sample_alert ''HighErrorRate'' CRITICAL ''api'' 0"
  let ?a1 = "sample_alert ''HighErrorRate'' CRITICAL ''auth'' 60"
  let ?a2 = "sample_alert ''HighErrorRate'' CRITICAL ''api'' 400"
  have s1: "get_signature ?a1 = get_signature ?a0" and s2: "get_signature ?a2 = get_signature ?a1"
    by (simp_all add: get_signature_sample)
  have "\<not> fst (process_alert ?a1 (snd (process_alert ?a0 init_deduplicator)))"
    using C1_suppression_window [OF s1, of init_deduplicator]
    by (auto simp: Let_def sample_alert_simps)
  moreover have "fst (process_alert ?a2 (snd (process_alert ?a1 (snd (process_alert ?a0 init_deduplicator)))))"
    using C1_suppression_window [OF s2, of "snd (process_alert ?a0 init_deduplicator)"]
    by (auto simp: Let_def sample_alert_simps)
  ultimately show ?thesis by simp
qed

subsection \<open>Runs of the engine, one signature at a time\<close>

lemma groups_process_alerts:
  "map_of (groups (snd (process_alerts xs d))) s = group_after (alerts_of s xs) (map_of (groups d) s)"
proof (induction xs arbitrary: d)
  case Nil
  show ?case by (simp add: alerts_of_def)
next
  case (Cons a xs)
  have "map_of (groups (snd (process_alerts (a # xs) d))) s
      = map_of (groups (snd (process_alerts xs (snd (process_alert a d))))) s"
    by (simp add: split_beta Let_def)
  also have "\<dots> = group_after (alerts_of s xs) (map_of (groups (snd (process_alert a d))) s)"
    by (rule Cons.IH)
  also have "\<dots> = group_after (alerts_of s (a # xs)) (map_of (groups d) s)"
    by (simp add: groups_process_alert alerts_of_def)
  finally show ?case .
qed

lemma group_after_Some:
  "\<exists>g'. group_after ms (Some g) = Some g' \<and>
     group_count g' = group_count g + int (length ms) \<and>
     group_first_seen g' = group_first_seen g \<and>
     group_last_seen g' = (if ms = [] then group_last_seen g else alert_timestamp (last ms)) \<and>
     group_alerts g' = group_alerts g @ ms"
proof (induction ms arbitrary: g)
  case Nil
  show ?case by simp
next
  case (Cons a ms)
  let ?g = "upsert_group a (Some g)"
  have u: "group_count ?g = group_count g + 1" "group_first_seen ?g = group_first_seen g"
    "group_last_seen ?g = alert_timestamp a" "group_alerts ?g = group_alerts g @ [a]"
    by (simp_all add: upsert_group_def)
  from Cons.IH [of ?g] u show ?case by auto
qed

lemma group_after_None:
  "group_after [] None = None"
  "\<exists>g'. group_after (a # ms) None = Some g' \<and>
     group_count g' = int (length (a # ms)) \<and>
     group_first_seen g' = alert_timestamp a \<and>
     group_last_seen g' = alert_timestamp (last (a # ms)) \<and>
     group_alerts g' = a # ms"
proof -
  show "group_after [] None = None" by simp
  let ?g = "upsert_group a None"
  have u: "group_count ?g = 1" "group_first_seen ?g = alert_timestamp a"
    "group_last_seen ?g = alert_timestamp a" "group_alerts ?g = [a]"
    by (simp_all add: upsert_group_def)
  from group_after_Some [of ms ?g] u
  show "\<exists>g'. group_after (a # ms) None = Some g' \<and>
     group_count g' = int (length (a # ms)) \<and>
     group_first_seen g' = alert_timestamp a \<and>
     group_last_seen g' = alert_timestamp (last (a # ms)) \<and>
     group_alerts g' = a # ms"
    by auto
qed

lemma group_of_run:
  assumes "map_of (groups (snd (process_alerts xs init_deduplicator))) s = Some g"
  shows "alerts_of s xs \<noteq> [] \<and>
     group_count g = int (length (alerts_of s xs)) \<and>
     group_first_seen g = alert_timestamp (hd (alerts_of s xs)) \<and>
     group_last_seen g = alert_timestamp (last (alerts_of s xs)) \<and>
     group_alerts g = alerts_of s xs"
proof (cases "alerts_of s xs")
  case Nil
  with assms show ?thesis
    by (simp add: groups_process_alerts init_deduplicator_def)
next
  case (Cons a ms)
  from assms have "group_after (a # ms) None = Some g"
    by (simp add: groups_process_alerts init_deduplicator_def Cons)
  with group_after_None(2) [of a ms] show ?thesis
    by (auto simp: Cons)
qed

lemma sig_HighErrorRate: "md5_12 ''HighErrorRate|critical'' = ''ef2e0d8b2bdf''"
  unfolding md5_12_def by code_simp

lemma sig_HighLatency: "md5_12 ''HighLatency|warning'' = ''8bbb4afd7ca8''"
  unfolding md5_12_def by code_simp

section \<open>Properties of the log classifier's store\<close>

lemma classify_upsert:
  "classify e c =
     (if is_noise e then (None, c\<lparr>noise_count := noise_count c + 1\<rparr>)
      else (Some (entry_signature e),
            c\<lparr>clusters := AList.update (entry_signature e)
                 (upsert_cluster e (map_of (clusters c) (entry_signature e))) (clusters c)\<rparr>))"
  by (simp add: classify_def upsert_cluster_def entry_signature_def Let_def split: option.split)

lemma clusters_classify:
  "map_of (clusters (snd (classify e c))) s =
     (if \<not> is_noise e \<and> s = entry_signature e
      then Some (upsert_cluster e (map_of (clusters c) s))
      else map_of (clusters c) s)"
  by (simp add: classify_upsert update_conv')

lemma clusters_classify_all:
  "map_of (clusters (snd (classify_all xs c))) s
     = cluster_after (entries_of s xs) (map_of (clusters c) s)"
proof (induction xs arbitrary: c)
  case Nil
  show ?case by (simp add: entries_of_def)
next
  case (Cons e xs)
  have "map_of (clusters (snd (classify_all (e # xs) c))) s
      = map_of (clusters (snd (classify_all xs (snd (classify e c))))) s"
    by (simp add: split_beta Let_def)
  also have "\<dots> = cluster_after (entries_of s xs) (map_of (clusters (snd (classify e c))) s)"
    by (rule Cons.IH)
  also have "\<dots> = cluster_after (entries_of s (e # xs)) (map_of (clusters c) s)"
    by (simp add: clusters_classify entries_of_def)
  finally show ?case .
qed

lemma cluster_after_Some:
  "\<exists>c'. cluster_after ms (Some c) = Some c' \<and>
     cluster_count c' = cluster_count c + int (length ms) \<and>
     cluster_first_seen c' = cluster_first_seen c \<and>
     cluster_last_seen c' = (if ms = [] then cluster_last_seen c else entry_timestamp (last ms)) \<and>
     cluster_samples c' = cluster_samples c @ take (3 - length (cluster_samples c)) ms \<and>
     cluster_is_noise c' = cluster_is_noise c"
proof (induction ms arbitrary: c)
  case Nil
  show ?case by simp
next
  case (Cons e ms)
  let ?c = "upsert_cluster e (Some c)"
  have u: "cluster_count ?c = cluster_count c + 1" "cluster_first_seen ?c = cluster_first_seen c"
    "cluster_last_seen ?c = entry_timestamp e" "cluster_is_noise ?c = cluster_is_noise c"
    by (simp_all add: upsert_cluster_def)
  have s: "cluster_samples ?c @ take (3 - length (cluster_samples ?c)) ms
      = cluster_samples c @ take (3 - length (cluster_samples c)) (e # ms)"
  proof (cases "length (cluster_samples c) < 3")
    case True
    then obtain k where k: "3 - length (cluster_samples c) = Suc k"
      by (metis Suc_diff_Suc)
    with True have "3 - length (cluster_samples c @ [e]) = k" by simp
    with True k show ?thesis by (simp add: upsert_cluster_def)
  next
    case False
    then show ?thesis by (simp add: upsert_cluster_def)
  qed
  from Cons.IH [of ?c] u s show ?case by auto
qed

lemma cluster_of_run:
  assumes "map_of (clusters (snd (classify_all xs init_classifier))) s = Some c"
  shows "entries_of s xs \<noteq> [] \<and>
     cluster_count c = int (length (entries_of s xs)) \<and>
     cluster_first_seen c = entry_timestamp (hd (entries_of s xs)) \<and>
     cluster_last_seen c = entry_timestamp (last (entries_of s xs)) \<and>
     cluster_samples c = take 3 (entries_of s xs) \<and>
     \<not> cluster_is_noise c"
proof (cases "entries_of s xs")
  case Nil
  with assms show ?thesis
    by (simp add: clusters_classify_all init_classifier_def)
next
  case (Cons e ms)
  let ?c = "upsert_cluster e None"
  have u: "cluster_count ?c = 1" "cluster_first_seen ?c = entry_timestamp e"
    "cluster_last_seen ?c = entry_timestamp e" "cluster_samples ?c = [e]" "\<not> cluster_is_noise ?c"
    by (simp_all add: upsert_cluster_def)
  from assms have "cluster_after ms (Some ?c) = Some c"
    by (simp add: clusters_classify_all init_classifier_def Cons)
  with cluster_after_Some [of ms ?c] u show ?thesis
    by (auto simp: Cons)
qed

lemma distinct_clusters_classify:
  "distinct (map fst (clusters c)) \<Longrightarrow> distinct (map fst (clusters (snd (classify e c))))"
  by (simp add: classify_upsert distinct_update)

lemma distinct_clusters_classify_all:
  "distinct (map fst (clusters c)) \<Longrightarrow> distinct (map fst (clusters (snd (classify_all xs c))))"
proof (induction xs arbitrary: c)
  case Nil
  then show ?case by simp
next
  case (Cons e xs)
  from Cons.IH [OF distinct_clusters_classify [OF Cons.prems]]
  show ?case by (simp add: split_beta Let_def)
qed

lemma distinct_groups_process_alerts:
  "distinct (map fst (groups d)) \<Longrightarrow> distinct (map fst (groups (snd (process_alerts xs d))))"
proof (induction xs arbitrary: d)
  case Nil
  then show ?case by simp
next
  case (Cons a xs)
  from Cons.prems have "distinct (map fst (groups (snd (process_alert a d))))"
    by (simp add: process_alert_upsert distinct_update)
  from Cons.IH [OF this] show ?case by (simp add: split_beta Let_def)
qed

text \<open>
  C10. Every cluster the classifier ever stores has \<open>is_noise = False\<close>, so
  \<open>get_actionable_errors min_count\<close> returns exactly the stored clusters whose count is
  at least \<open>min_count\<close>, in the order of the store.
\<close>

theorem C10_actionable_errors:
  "list_all (\<lambda>cl. cluster_is_noise cl = False)
     (map snd (clusters (snd (classify_all xs init_classifier))))
   \<and> get_actionable_errors min_count (snd (classify_all xs init_classifier))
     = [cl \<leftarrow> map snd (clusters (snd (classify_all xs init_classifier))). cluster_count cl \<ge> min_count]"
proof -
  let ?c = "snd (classify_all xs init_classifier)"
  have d: "distinct (map fst (clusters ?c))"
    by (rule distinct_clusters_classify_all) (simp add: init_classifier_def)
  have n: "\<not> cluster_is_noise cl" if "cl \<in> set (map snd (clusters ?c))" for cl
  proof -
    from that obtain s where "(s, cl) \<in> set (clusters ?c)" by auto
    with d have "map_of (clusters ?c) s = Some cl" by simp
    from cluster_of_run [OF this] show ?thesis by simp
  qed
  then have "list_all (\<lambda>cl. cluster_is_noise cl = False) (map snd (clusters ?c))"
    unfolding list_all_iff by blast
  moreover from n have "get_actionable_errors min_count ?c
      = [cl \<leftarrow> map snd (clusters ?c). cluster_count cl \<ge> min_count]"
    unfolding get_actionable_errors_def by (intro filter_cong) auto
  ultimately show ?thesis by simp
qed

section \<open>First and last seen, samples, active groups\<close>

lemma is_noise_db_timeout: "\<not> is_noise (sample_entry ''DB timeout after 100ms'' t)"
  unfolding is_noise_def sample_entry_def by code_simp

lemma sorted_hd_le_last:
  fixes f :: "'a \<Rightarrow> int"
  assumes "sorted (map f ms)" "ms \<noteq> []"
  shows "f (hd ms) \<le> f (last ms)"
proof -
  from assms(2) have "hd ms = ms ! 0" "last ms = ms ! (length ms - 1)"
    by (simp_all add: hd_conv_nth last_conv_nth)
  moreover from assms have "map f ms ! 0 \<le> map f ms ! (length ms - 1)"
    by (intro sorted_nth_mono) simp_all
  ultimately show ?thesis using assms(2) by simp
qed

lemma entry_signature_sample:
  "entry_signature (sample_entry msg t) = md5_12 (normalize_message msg)"
  by (simp add: entry_signature_def sample_entry_def)

text \<open>
  C3, as the code has it. After any sequence of events processed from the empty store,
  a group's first\_seen is the timestamp of the first processed event of its signature
  and its last\_seen that of the most recently processed one, in the alert engine and
  in the log classifier. So last\_seen \<open>\<ge>\<close> first\_seen holds when the events of the
  signature were processed in non-decreasing timestamp order; nothing reconciles
  timestamps that arrive out of order.
\<close>

theorem C3_first_last_seen:
  "(map_of (groups (snd (process_alerts xs init_deduplicator))) s = Some g \<longrightarrow>
      alerts_of s xs \<noteq> [] \<and>
      group_first_seen g = alert_timestamp (hd (alerts_of s xs)) \<and>
      group_last_seen g = alert_timestamp (last (alerts_of s xs)) \<and>
      (sorted (map alert_timestamp (alerts_of s xs)) \<longrightarrow> group_first_seen g \<le> group_last_seen g))
   \<and> (map_of (clusters (snd (classify_all es init_classifier))) s' = Some c \<longrightarrow>
      entries_of s' es \<noteq> [] \<and>
      cluster_first_seen c = entry_timestamp (hd (entries_of s' es)) \<and>
      cluster_last_seen c = entry_timestamp (last (entries_of s' es)) \<and>
      (sorted (map entry_timestamp (entries_of s' es)) \<longrightarrow> cluster_first_seen c \<le> cluster_last_seen c))"
  using group_of_run [of xs s g] cluster_of_run [of es s' c]
    sorted_hd_le_last [of alert_timestamp "alerts_of s xs"]
    sorted_hd_le_last [of entry_timestamp "entries_of s' es"]
  by simp

theorem C3_first_last_seen_witness:
  "(\<exists>g. map_of (groups (snd (process_alerts
            [sample_alert ''HighErrorRate'' CRITICAL ''api'' 0,
             sample_alert ''HighErrorRate'' CRITICAL ''auth'' 60] init_deduplicator)))
          (md5_12 ''HighErrorRate|critical'') = Some g
        \<and> group_first_seen g = 0 \<and> group_last_seen g = 60000000)
   \<and> (\<exists>c. map_of (clusters (snd (classify_all
            [sample_entry ''DB timeout after 100ms'' 5,
             sample_entry ''DB timeout after 100ms'' 7] init_classifier)))
          (entry_signature (sample_entry ''DB timeout after 100ms'' 5)) = Some c
        \<and> cluster_first_seen c = 5000000 \<and> cluster_last_seen c = 7000000)"
proof -
  let ?xs = "[sample_alert ''HighErrorRate'' CRITICAL ''api'' 0,
             sample_alert ''HighErrorRate'' CRITICAL ''auth'' 60]"
  let ?s = "md5_12 ''HighErrorRate|critical''"
  let ?es = "[sample_entry ''DB timeout after 100ms'' 5, sample_entry ''DB timeout after 100ms'' 7]"
  let ?s' = "entry_signature (sample_entry ''DB timeout after 100ms'' 5)"
  have ms: "alerts_of ?s ?xs = ?xs"
    by (simp add: alerts_of_def get_signature_sample)
  obtain g where g: "map_of (groups (snd (process_alerts ?xs init_deduplicator))) ?s = Some g"
    unfolding groups_process_alerts ms by (simp add: init_deduplicator_def)
  have es: "entries_of ?s' ?es = ?es"
    by (simp add: entries_of_def is_noise_db_timeout entry_signature_sample)
  obtain c where c: "map_of (clusters (snd (classify_all ?es init_classifier))) ?s' = Some c"
    unfolding clusters_classify_all es by (simp add: init_classifier_def)
  from C3_first_last_seen [of ?xs ?s g ?es ?s' c] g c
  have "group_first_seen g = 0 \<and> group_last_seen g = 60000000
      \<and> cluster_first_seen c = 5000000 \<and> cluster_last_seen c = 7000000"
    unfolding ms es by (simp add: sample_alert_simps sample_entry_def)
  with g c show ?thesis by blast
qed

text \<open>
  The claim as stated fails: the same alert at 10 s and then at 5 s leaves a group with
  first\_seen 10 s and last\_seen 5 s.
\<close>

theorem C3_counterexample:
  "map (\<lambda>(s, g). (group_first_seen g, group_last_seen g))
     (groups (snd (process_alerts
        [sample_alert ''HighErrorRate'' CRITICAL ''api'' 10,
         sample_alert ''HighErrorRate'' CRITICAL ''api'' 5] init_deduplicator)))
   = [(10000000, 5000000)]"
  by (simp add: process_alert_upsert init_deduplicator_def get_signature_sample
      upsert_group_def upsert_sent_def sample_alert_simps)


text \<open>
  C6. When the window has elapsed, \<open>process_alert\<close> returns True, increments the count
  and updates last\_seen, and appends the alert to the group's alerts; but, unlike the
  suppress branch, it leaves the group's services as they are. At the input below, the
  alert from the service auth, 400 s after the one from api, is sent and counted, and
  auth is missing from the services of the group.
\<close>

theorem C6_rollover_drops_service:
  "process_alerts
     [sample_alert ''HighErrorRate'' CRITICAL ''api'' 0,
      sample_alert ''HighErrorRate'' CRITICAL ''auth'' 400] init_deduplicator
   = ([True, True],
      \<lparr>groups =
         [(md5_12 ''HighErrorRate|critical'',
           \<lparr>group_signature = md5_12 ''HighErrorRate|critical'',
            group_name = ''HighErrorRate'',
            group_severity = CRITICAL,
            group_count = 2,
            group_first_seen = 0,
            group_last_seen = 400000000,
            group_services = [''api''],
            group_alerts =
              [sample_alert ''HighErrorRate'' CRITICAL ''api'' 0,
               sample_alert ''HighErrorRate'' CRITICAL ''auth'' 400]\<rparr>)],
       suppressed_count = 0\<rparr>)"
  by (simp add: process_alert_upsert init_deduplicator_def get_signature_sample
      upsert_group_def upsert_sent_def sample_alert_simps SUPPRESSION_WINDOW_def minutes_def)

text \<open>In general: in the rollover branch the services of the group do not change.\<close>

lemma rollover_keeps_services:
  assumes "map_of (groups d) (get_signature a) = Some g"
    and "\<not> alert_timestamp a - group_last_seen g < SUPPRESSION_WINDOW"
  shows "fst (process_alert a d) \<and>
    (\<exists>g'. map_of (groups (snd (process_alert a d))) (get_signature a) = Some g' \<and>
       group_services g' = group_services g \<and>
       group_count g' = group_count g + 1 \<and>
       group_last_seen g' = alert_timestamp a \<and>
       group_alerts g' = group_alerts g @ [a])"
  using assms
  by (simp add: groups_process_alert) (simp add: process_alert_upsert upsert_sent_def upsert_group_def)

text \<open>
  C7, as the code has it. In the log classifier a cluster's samples are the first three
  processed entries of its signature (fewer when it has fewer), so at most 3, and its
  count is the number of processed entries, at least the number of samples. In the
  alert engine a group's alerts list has no cap: it holds every processed alert of the
  signature, and the count is its length.
\<close>

theorem C7_samples:
  "(map_of (clusters (snd (classify_all es init_classifier))) s = Some c \<longrightarrow>
      cluster_samples c = take 3 (entries_of s es) \<and>
      length (cluster_samples c) \<le> 3 \<and>
      cluster_count c = int (length (entries_of s es)) \<and>
      int (length (cluster_samples c)) \<le> cluster_count c)
   \<and> (map_of (groups (snd (process_alerts xs init_deduplicator))) s' = Some g \<longrightarrow>
      group_alerts g = alerts_of s' xs \<and>
      group_count g = int (length (group_alerts g)))"
  using cluster_of_run [of es s c] group_of_run [of xs s' g] by simp

theorem C7_samples_witness:
  "(\<exists>c. map_of (clusters (snd (classify_all
            [sample_entry ''DB timeout after 100ms'' 1, sample_entry ''DB timeout after 100ms'' 2,
             sample_entry ''DB timeout after 100ms'' 3, sample_entry ''DB timeout after 100ms'' 4]
            init_classifier)))
          (entry_signature (sample_entry ''DB timeout after 100ms'' 1)) = Some c
        \<and> cluster_samples c =
            [sample_entry ''DB timeout after 100ms'' 1, sample_entry ''DB timeout after 100ms'' 2,
             sample_entry ''DB timeout after 100ms'' 3]
        \<and> cluster_count c = 4)
   \<and> (\<exists>g. map_of (groups (snd (process_alerts
            [sample_alert ''HighErrorRate'' CRITICAL ''api'' 0,
             sample_alert ''HighErrorRate'' CRITICAL ''auth'' 60] init_deduplicator)))
          (md5_12 ''HighErrorRate|critical'') = Some g
        \<and> group_count g = 2)"
proof -
  let ?xs = "[sample_alert ''HighErrorRate'' CRITICAL ''api'' 0,
             sample_alert ''HighErrorRate'' CRITICAL ''auth'' 60]"
  let ?s' = "md5_12 ''HighErrorRate|critical''"
  let ?es = "[sample_entry ''DB timeout after 100ms'' 1, sample_entry ''DB timeout after 100ms'' 2,
             sample_entry ''DB timeout after 100ms'' 3, sample_entry ''DB timeout after 100ms'' 4]"
  let ?s = "entry_signature (sample_entry ''DB timeout after 100ms'' 1)"
  have ms: "alerts_of ?s' ?xs = ?xs"
    by (simp add: alerts_of_def get_signature_sample)
  obtain g where g: "map_of (groups (snd (process_alerts ?xs init_deduplicator))) ?s' = Some g"
    unfolding groups_process_alerts ms by (simp add: init_deduplicator_def)
  have es: "entries_of ?s ?es = ?es"
    by (simp add: entries_of_def is_noise_db_timeout entry_signature_sample)
  obtain c where c: "map_of (clusters (snd (classify_all ?es init_classifier))) ?s = Some c"
    unfolding clusters_classify_all es by (simp add: init_classifier_def)
  from C7_samples [of ?es ?s c ?xs ?s' g] g c
  have "cluster_samples c = take 3 ?es \<and> cluster_count c = 4 \<and> group_count g = 2"
    unfolding ms es by simp
  with g c show ?thesis by auto
qed

text \<open>
  The claim as stated fails for the alert engine: after four alerts of one signature the
  group's alerts list holds four entries.
\<close>

theorem C7_counterexample:
  "map (\<lambda>(s, g). length (group_alerts g))
     (groups (snd (process_alerts
        [sample_alert ''HighErrorRate'' CRITICAL ''api'' 0,
         sample_alert ''HighErrorRate'' CRITICAL ''api'' 1,
         sample_alert ''HighErrorRate'' CRITICAL ''api'' 2,
         sample_alert ''HighErrorRate'' CRITICAL ''api'' 3] init_deduplicator)))
   = [4]"
  by (simp add: process_alert_upsert init_deduplicator_def get_signature_sample
      upsert_group_def upsert_sent_def sample_alert_simps)

text \<open>
  C8, as the code has it. \<open>get_active_groups\<close> returns exactly the groups whose
  last\_seen is less than 30 minutes before now, in the order of the store (the order
  in which the signatures first appeared). The order by descending count is that of
  \<open>print_report\<close>, which sorts what \<open>get_active_groups\<close> returns.
\<close>

theorem C8_active_groups:
  "set (get_active_groups now d)
     = {g \<in> snd ` set (groups d). now - group_last_seen g < 30 * 60 * 1000000}
   \<and> get_active_groups now d
     = [g \<leftarrow> map snd (groups d). now - group_last_seen g < 30 * 60 * 1000000]
   \<and> sorted_wrt (\<lambda>g g'. group_count g \<ge> group_count g') (report_order now d)
   \<and> mset (report_order now d) = mset (get_active_groups now d)"
proof -
  have "sorted (map (\<lambda>g. - group_count g) (report_order now d))"
    by (simp add: report_order_def)
  then have "sorted_wrt (\<lambda>g g'. group_count g \<ge> group_count g') (report_order now d)"
    by (simp add: sorted_wrt_map)
  then show ?thesis
    by (auto simp: get_active_groups_def minutes_def report_order_def)
qed

text \<open>
  The claim as stated fails: with a group of one alert stored before a group of two,
  \<open>get_active_groups\<close> returns the counts 1, 2.
\<close>

theorem C8_counterexample:
  "map group_count (get_active_groups 30000000
     (snd (process_alerts
        [sample_alert ''HighErrorRate'' CRITICAL ''api'' 0,
         sample_alert ''HighLatency'' WARNING ''api'' 10,
         sample_alert ''HighLatency'' WARNING ''api'' 20] init_deduplicator)))
   = [1, 2]"
  by (simp add: process_alert_upsert init_deduplicator_def get_signature_sample
      upsert_group_def upsert_sent_def sample_alert_simps get_active_groups_def minutes_def
      sig_HighErrorRate sig_HighLatency)

section \<open>The noise filter\<close>

lemma rmatch_literal:
  "rmatch (literal p) prev s = (if take (length p) s = p then Some (length p) else None)"
proof (induction p arbitrary: prev s)
  case Nil
  show ?case by (simp add: literal_def)
next
  case (Cons c p)
  from Cons.IH show ?case
    by (cases s) (auto simp: literal_def)
qed

lemma search_from_literal:
  "search_from (literal p) prev s = (\<exists>u w. s = u @ p @ w)"
proof (induction s arbitrary: prev)
  case Nil
  show ?case by (auto simp: rmatch_literal)
next
  case (Cons x xs)
  have "(\<exists>u w. x # xs = u @ p @ w) = (take (length p) (x # xs) = p \<or> (\<exists>u w. xs = u @ p @ w))"
  proof
    assume "\<exists>u w. x # xs = u @ p @ w"
    then obtain u w where uw: "x # xs = u @ p @ w" by blast
    show "take (length p) (x # xs) = p \<or> (\<exists>u w. xs = u @ p @ w)"
    proof (cases u)
      case Nil
      with uw show ?thesis by simp
    next
      case (Cons y u')
      with uw have "xs = u' @ p @ w" by simp
      then show ?thesis by blast
    qed
  next
    assume "take (length p) (x # xs) = p \<or> (\<exists>u w. xs = u @ p @ w)"
    then show "\<exists>u w. x # xs = u @ p @ w"
    proof
      assume "take (length p) (x # xs) = p"
      then have "x # xs = [] @ p @ drop (length p) (x # xs)"
        by (metis append_Nil append_take_drop_id)
      then show ?thesis by blast
    next
      assume "\<exists>u w. xs = u @ p @ w"
      then obtain u w where "xs = u @ p @ w" by blast
      then have "x # xs = (x # u) @ p @ w" by simp
      then show ?thesis by blast
    qed
  qed
  with Cons.IH show ?case by (simp add: rmatch_literal)
qed

text \<open>
  What \<open>_is_noise\<close> decides: the lower-cased message contains one of the five
  patterns as written in \<open>NOISE_PATTERNS\<close>.
\<close>

lemma is_noise_iff:
  "is_noise e =
     (\<exists>p \<in> set [''health check'', ''connection reset by peer'', ''context canceled'',
                 ''request canceled'', ''EOF''].
        \<exists>u w. lower (entry_message e) = u @ p @ w)"
  by (simp add: is_noise_def NOISE_PATTERNS_def re_search_def search_from_literal Let_def)

lemma lower_char_not_upper_E: "lower_char c \<noteq> CHR ''E''"
proof -
  have "of_char (lower_char c) \<noteq> (69 :: nat)"
    by (auto simp: lower_char_def Let_def)
  then show ?thesis by auto
qed

text \<open>
  The pattern \<open>EOF\<close> is searched in the lower-cased message, which has no upper-case
  E: it matches no message at all.
\<close>

lemma eof_pattern_never_matches: "\<not> re_search (literal ''EOF'') (lower msg)"
proof
  assume "re_search (literal ''EOF'') (lower msg)"
  then obtain u w where "lower msg = u @ ''EOF'' @ w"
    by (auto simp: re_search_def search_from_literal)
  then have "CHR ''E'' \<in> set (lower msg)"
    by simp
  then obtain c where "lower_char c = CHR ''E''"
    by (auto simp: lower_def)
  then show False
    using lower_char_not_upper_E by blast
qed

text \<open>A noise entry only increments the noise tally: the clusters are untouched.\<close>

lemma classify_noise:
  "is_noise e \<Longrightarrow> classify e c = (None, c\<lparr>noise_count := noise_count c + 1\<rparr>)"
  by (simp add: classify_upsert)

text \<open>
  C4. The filter matches four of the five listed patterns in any letter case, and a
  matching entry only increments the noise tally. The fifth does not work: the entry
  with the message ``unexpected EOF'' is not noise; \<open>classify\<close> returns a signature for
  it, stores a cluster and leaves the noise tally at 0.
\<close>

theorem C4_eof_is_not_filtered:
  "\<not> is_noise (sample_entry ''unexpected EOF'' 0)
   \<and> fst (classify (sample_entry ''unexpected EOF'' 0) init_classifier)
       = Some (entry_signature (sample_entry ''unexpected EOF'' 0))
   \<and> map fst (clusters (snd (classify (sample_entry ''unexpected EOF'' 0) init_classifier)))
       = [entry_signature (sample_entry ''unexpected EOF'' 0)]
   \<and> noise_count (snd (classify (sample_entry ''unexpected EOF'' 0) init_classifier)) = 0"
proof -
  have n: "\<not> is_noise (sample_entry ''unexpected EOF'' 0)"
    unfolding is_noise_def sample_entry_def by code_simp
  then show ?thesis
    by (simp add: classify_upsert init_classifier_def)
qed

section \<open>The order of events across signatures\<close>

lemma length_process_alerts: "length (fst (process_alerts xs d)) = length xs"
  by (induction xs arbitrary: d) (simp_all add: split_beta Let_def)

lemma sents_process_alerts:
  "[(a, r) \<leftarrow> zip xs (fst (process_alerts xs d)). get_signature a = s]
     = zip (alerts_of s xs) (sents_after (alerts_of s xs) (map_of (groups d) s))"
proof (induction xs arbitrary: d)
  case Nil
  show ?case by (simp add: alerts_of_def)
next
  case (Cons a xs)
  let ?d = "snd (process_alert a d)"
  have step: "fst (process_alerts (a # xs) d)
      = upsert_sent a (map_of (groups d) (get_signature a)) # fst (process_alerts xs ?d)"
    by (simp add: split_beta Let_def process_alert_upsert)
  have rest: "alerts_of s (a # xs) = (if get_signature a = s then [a] else []) @ alerts_of s xs"
    by (simp add: alerts_of_def)
  show ?case
    unfolding step rest using Cons.IH [of ?d]
    by (simp add: groups_process_alert)
qed

lemma suppressed_process_alerts:
  "suppressed_count (snd (process_alerts xs d))
     = suppressed_count d + int (length [r \<leftarrow> fst (process_alerts xs d). \<not> r])"
proof (induction xs arbitrary: d)
  case Nil
  show ?case by simp
next
  case (Cons a xs)
  from Cons.IH [of "snd (process_alert a d)"] show ?case
    by (simp add: split_beta Let_def process_alert_upsert)
qed

lemma mset_eq_by_key:
  assumes "\<forall>s. [z \<leftarrow> zs. k z = s] = [z \<leftarrow> zs'. k z = s]"
  shows "mset zs = mset zs'"
proof (rule multiset_eqI)
  fix x
  have c: "count (mset ws) x = length [z \<leftarrow> [z \<leftarrow> ws. k z = k x]. x = z]" for ws
    by (induction ws) auto
  from assms have "[z \<leftarrow> zs. k z = k x] = [z \<leftarrow> zs'. k z = k x]" by blast
  then show "count (mset zs) x = count (mset zs') x"
    by (simp only: c)
qed

lemma length_filter_snd_zip:
  "length xs = length rs \<Longrightarrow> length [r \<leftarrow> rs. P r] = size (filter_mset (\<lambda>z. P (snd z)) (mset (zip xs rs)))"
proof (induction xs rs rule: list_induct2)
  case Nil
  show ?case by simp
next
  case (Cons x xs r rs)
  then show ?case by simp
qed

lemma fst_classify_all:
  "fst (classify_all es c) = map (\<lambda>e. if is_noise e then None else Some (entry_signature e)) es"
  by (induction es arbitrary: c) (simp_all add: split_beta Let_def classify_upsert)

lemma noise_count_classify_all:
  "noise_count (snd (classify_all es c)) = noise_count c + int (size (filter_mset is_noise (mset es)))"
proof (induction es arbitrary: c)
  case Nil
  show ?case by simp
next
  case (Cons e es)
  from Cons.IH [of "snd (classify e c)"] show ?case
    by (simp add: split_beta Let_def classify_upsert)
qed

text \<open>
  C5. Two sequences of alerts that list the alerts of every signature in the same order
  (so each is a permutation of the other that keeps the same-signature alerts in their
  relative order) lead from any state to the same mapping from signatures to groups, as
  Python compares dicts, and the same suppressed count; and the alerts of each signature
  receive the same decisions, in order. The same holds for the classifier, with entries
  that are permutations of each other and keep the non-noise entries of every signature
  in order: same clusters, same noise count, and every entry has the same result.
\<close>

theorem C5_order_across_signatures:
  "((\<forall>s. alerts_of s xs = alerts_of s ys) \<longrightarrow>
      mset xs = mset ys \<and>
      map_of (groups (snd (process_alerts xs d))) = map_of (groups (snd (process_alerts ys d))) \<and>
      suppressed_count (snd (process_alerts xs d)) = suppressed_count (snd (process_alerts ys d)) \<and>
      (\<forall>s. [(a, r) \<leftarrow> zip xs (fst (process_alerts xs d)). get_signature a = s]
         = [(a, r) \<leftarrow> zip ys (fst (process_alerts ys d)). get_signature a = s]) \<and>
      mset (zip xs (fst (process_alerts xs d))) = mset (zip ys (fst (process_alerts ys d))))
   \<and> (mset es = mset fs \<and> (\<forall>s. entries_of s es = entries_of s fs) \<longrightarrow>
      map_of (clusters (snd (classify_all es c))) = map_of (clusters (snd (classify_all fs c))) \<and>
      noise_count (snd (classify_all es c)) = noise_count (snd (classify_all fs c)) \<and>
      mset (zip es (fst (classify_all es c))) = mset (zip fs (fst (classify_all fs c))))"
proof (intro conjI impI)
  assume a: "\<forall>s. alerts_of s xs = alerts_of s ys"
  then show "mset xs = mset ys"
    unfolding alerts_of_def by (rule mset_eq_by_key)
  show g: "map_of (groups (snd (process_alerts xs d))) = map_of (groups (snd (process_alerts ys d)))"
    using a by (intro ext) (simp add: groups_process_alerts)
  show z: "\<forall>s. [(a, r) \<leftarrow> zip xs (fst (process_alerts xs d)). get_signature a = s]
         = [(a, r) \<leftarrow> zip ys (fst (process_alerts ys d)). get_signature a = s]"
    using a by (simp add: sents_process_alerts)
  have "\<forall>s. [z \<leftarrow> zip xs (fst (process_alerts xs d)). get_signature (fst z) = s]
         = [z \<leftarrow> zip ys (fst (process_alerts ys d)). get_signature (fst z) = s]"
    using z by (simp add: case_prod_unfold)
  then show m: "mset (zip xs (fst (process_alerts xs d))) = mset (zip ys (fst (process_alerts ys d)))"
    by (rule mset_eq_by_key)
  have "length [r \<leftarrow> fst (process_alerts xs d). \<not> r] = length [r \<leftarrow> fst (process_alerts ys d). \<not> r]"
    using m by (simp add: length_filter_snd_zip [of xs] length_filter_snd_zip [of ys] length_process_alerts)
  then show "suppressed_count (snd (process_alerts xs d)) = suppressed_count (snd (process_alerts ys d))"
    by (simp add: suppressed_process_alerts)
next
  assume b: "mset es = mset fs \<and> (\<forall>s. entries_of s es = entries_of s fs)"
  then show "map_of (clusters (snd (classify_all es c))) = map_of (clusters (snd (classify_all fs c)))"
    by (intro ext) (simp add: clusters_classify_all)
  from b show "noise_count (snd (classify_all es c)) = noise_count (snd (classify_all fs c))"
    by (simp add: noise_count_classify_all)
  have "zip ws (map f ws) = map (\<lambda>e. (e, f e)) ws" for f :: "LogEntry \<Rightarrow> string option" and ws
    by (induction ws) simp_all
  then have "mset (zip ws (fst (classify_all ws c)))
      = image_mset (\<lambda>e. (e, if is_noise e then None else Some (entry_signature e))) (mset ws)" for ws
    by (simp add: fst_classify_all)
  with b show "mset (zip es (fst (classify_all es c))) = mset (zip fs (fst (classify_all fs c)))"
    by simp
qed

lemma is_noise_health_check: "is_noise (sample_entry ''Health check passed'' t)"
  unfolding is_noise_def sample_entry_def by code_simp

text \<open>
  Two alert types interleaved in two ways, and a noise entry before or after a log line:
  the stores agree, and the decisions are sent, sent, suppressed for the same alerts.
\<close>

theorem C5_order_across_signatures_witness:
  "map_of (groups (snd (process_alerts
       [sample_alert ''HighErrorRate'' CRITICAL ''api'' 0,
        sample_alert ''HighLatency'' WARNING ''api'' 10,
        sample_alert ''HighErrorRate'' CRITICAL ''api'' 20] init_deduplicator)))
   = map_of (groups (snd (process_alerts
       [sample_alert ''HighLatency'' WARNING ''api'' 10,
        sample_alert ''HighErrorRate'' CRITICAL ''api'' 0,
        sample_alert ''HighErrorRate'' CRITICAL ''api'' 20] init_deduplicator)))
   \<and> zip [sample_alert ''HighErrorRate'' CRITICAL ''api'' 0,
           sample_alert ''HighLatency'' WARNING ''api'' 10,
           sample_alert ''HighErrorRate'' CRITICAL ''api'' 20]
          (fst (process_alerts
           [sample_alert ''HighErrorRate'' CRITICAL ''api'' 0,
            sample_alert ''HighLatency'' WARNING ''api'' 10,
            sample_alert ''HighErrorRate'' CRITICAL ''api'' 20] init_deduplicator))
     = [(sample_alert ''HighErrorRate'' CRITICAL ''api'' 0, True),
        (sample_alert ''HighLatency'' WARNING ''api'' 10, True),
        (sample_alert ''HighErrorRate'' CRITICAL ''api'' 20, False)]
   \<and> zip [sample_alert ''HighLatency'' WARNING ''api'' 10,
           sample_alert ''HighErrorRate'' CRITICAL ''api'' 0,
           sample_alert ''HighErrorRate'' CRITICAL ''api'' 20]
          (fst (process_alerts
           [sample_alert ''HighLatency'' WARNING ''api'' 10,
            sample_alert ''HighErrorRate'' CRITICAL ''api'' 0,
            sample_alert ''HighErrorRate'' CRITICAL ''api'' 20] init_deduplicator))
     = [(sample_alert ''HighLatency'' WARNING ''api'' 10, True),
        (sample_alert ''HighErrorRate'' CRITICAL ''api'' 0, True),
        (sample_alert ''HighErrorRate'' CRITICAL ''api'' 20, False)]
   \<and> map_of (clusters (snd (classify_all
       [sample_entry ''DB timeout after 100ms'' 1, sample_entry ''Health check passed'' 2]
       init_classifier)))
   = map_of (clusters (snd (classify_all
       [sample_entry ''Health check passed'' 2, sample_entry ''DB timeout after 100ms'' 1]
       init_classifier)))"
proof -
  let ?A0 = "sample_alert ''HighErrorRate'' CRITICAL ''api'' 0"
  let ?B = "sample_alert ''HighLatency'' WARNING ''api'' 10"
  let ?A1 = "sample_alert ''HighErrorRate'' CRITICAL ''api'' 20"
  let ?e = "sample_entry ''DB timeout after 100ms'' 1"
  let ?n = "sample_entry ''Health check passed'' 2"
  have h1: "\<forall>s. alerts_of s [?A0, ?B, ?A1] = alerts_of s [?B, ?A0, ?A1]"
    by (simp add: alerts_of_def get_signature_sample sig_HighErrorRate sig_HighLatency)
  have h2: "mset [?e, ?n] = mset [?n, ?e] \<and> (\<forall>s. entries_of s [?e, ?n] = entries_of s [?n, ?e])"
    by (simp add: entries_of_def is_noise_health_check is_noise_db_timeout)
  have r1: "fst (process_alerts [?A0, ?B, ?A1] init_deduplicator) = [True, True, False]"
    by (simp add: process_alert_upsert init_deduplicator_def get_signature_sample
      upsert_group_def upsert_sent_def sample_alert_simps SUPPRESSION_WINDOW_def minutes_def
      sig_HighErrorRate sig_HighLatency)
  have r2: "fst (process_alerts [?B, ?A0, ?A1] init_deduplicator) = [True, True, False]"
    by (simp add: process_alert_upsert init_deduplicator_def get_signature_sample
      upsert_group_def upsert_sent_def sample_alert_simps SUPPRESSION_WINDOW_def minutes_def
      sig_HighErrorRate sig_HighLatency)
  from C5_order_across_signatures
    [of "[?A0, ?B, ?A1]" "[?B, ?A0, ?A1]" init_deduplicator "[?e, ?n]" "[?n, ?e]" init_classifier]
    h1 h2
  have "map_of (groups (snd (process_alerts [?A0, ?B, ?A1] init_deduplicator)))
      = map_of (groups (snd (process_alerts [?B, ?A0, ?A1] init_deduplicator)))"
    and "map_of (clusters (snd (classify_all [?e, ?n] init_classifier)))
      = map_of (clusters (snd (classify_all [?n, ?e] init_classifier)))"
    by blast+
  then show ?thesis
    unfolding r1 r2 by simp
qed

section \<open>The normalizer is idempotent\<close>

subsection \<open>Substitution where nothing matches\<close>

lemma sub_from_nomatch: "nomatch m p s \<Longrightarrow> sub_from m rep p s = s"
  by (induction s arbitrary: p) simp_all

lemma last_opt_simps:
  "last_opt p [] = p"
  "last_opt p (x # u) = last_opt (Some x) u"
  by (simp_all add: last_opt_def)

lemma last_opt_take_Suc:
  "n < length s \<Longrightarrow> last_opt p (take (Suc n) s) = Some (s ! n)"
  by (simp add: last_opt_def take_Suc_conv_app_nth)

lemma nomatch_drop: "nomatch m p s \<Longrightarrow> nomatch m (last_opt p (take i s)) (drop i s)"
proof (induction s arbitrary: p i)
  case Nil
  show ?case by simp
next
  case (Cons x xs)
  show ?case
  proof (cases i)
    case 0
    with Cons.prems show ?thesis by (simp add: last_opt_simps)
  next
    case (Suc j)
    from Cons.prems have "nomatch m (Some x) xs" by simp
    from Cons.IH [OF this, of j] Suc show ?thesis by (simp add: last_opt_simps)
  qed
qed

lemma spec_Some:
  assumes "matcher_spec bnd shape m" "m p s = Some k"
  shows "k \<le> length s" "shape (take k s)" "0 < k" "list_all pat_char (take k s)"
    "bnd \<Longrightarrow> \<not> is_word_opt p" "bnd \<Longrightarrow> \<not> is_word_opt (first_opt (drop k s))"
    "bnd \<Longrightarrow> is_word (hd s)" "bnd \<Longrightarrow> is_word (last (take k s))"
proof -
  from assms have a: "k \<le> length s \<and> shape (take k s) \<and>
      (bnd \<longrightarrow> \<not> is_word_opt p \<and> \<not> is_word_opt (first_opt (drop k s)))"
    unfolding matcher_spec_def by blast
  from assms(1) a have b: "take k s \<noteq> [] \<and> list_all pat_char (take k s) \<and>
      (bnd \<longrightarrow> is_word (hd (take k s)) \<and> is_word (last (take k s)))"
    unfolding matcher_spec_def by blast
  from a show "k \<le> length s" "shape (take k s)" by simp_all
  from b show k: "0 < k" by (cases k) simp_all
  from b show "list_all pat_char (take k s)" by simp
  from a show "bnd \<Longrightarrow> \<not> is_word_opt p" "bnd \<Longrightarrow> \<not> is_word_opt (first_opt (drop k s))" by simp_all
  from b k show "bnd \<Longrightarrow> is_word (hd s)" by (cases s; cases k) simp_all
  from b show "bnd \<Longrightarrow> is_word (last (take k s))" by simp
qed

lemma spec_intro:
  assumes "matcher_spec bnd shape m" "k \<le> length s" "shape (take k s)"
    "bnd \<Longrightarrow> \<not> is_word_opt p" "bnd \<Longrightarrow> \<not> is_word_opt (first_opt (drop k s))"
  shows "m p s = Some k"
  using assms unfolding matcher_spec_def by blast

lemma spec_not_pat_char:
  assumes "matcher_spec bnd shape m" "\<not> pat_char c"
  shows "m p (c # w) = None"
proof (cases "m p (c # w)")
  case None
  then show ?thesis .
next
  case (Some k)
  from spec_Some(3,4) [OF assms(1) Some] assms(2) show ?thesis
    by (cases k) simp_all
qed

lemma nomatch_rep:
  assumes "matcher_spec bnd shape m" "list_all (\<lambda>c. \<not> pat_char c) rep"
  shows "nomatch m q (rep @ u) = nomatch m (last_opt q rep) u"
  using assms(2)
proof (induction rep arbitrary: q)
  case Nil
  show ?case by (simp add: last_opt_simps)
next
  case (Cons c rep)
  then show ?case
    by (simp add: last_opt_simps spec_not_pat_char [OF assms(1)])
qed

subsection \<open>What a match can see of a substituted string\<close>

lemma sub_from_match:
  "m p (x # xs) = Some (Suc n) \<Longrightarrow>
    sub_from m rep p (x # xs) = rep @ sub_from m rep (Some ((x # xs) ! n)) (drop n xs)"
  by simp

lemma sub_from_copy:
  "\<forall>n. m p (x # xs) \<noteq> Some (Suc n) \<Longrightarrow>
    sub_from m rep p (x # xs) = x # sub_from m rep (Some x) xs"
  by (cases "m p (x # xs)") (auto split: nat.split)

text \<open>
  A prefix of the output that holds pattern characters only is a prefix of the input:
  every replacement starts with a character that is not one.
\<close>

lemma clean_prefix:
  assumes "rep_ok rep"
  shows "list_all pat_char (take i (sub_from m' rep p s)) \<Longrightarrow>
    take i (sub_from m' rep p s) = take i s"
proof (induction "length s" arbitrary: s p i rule: less_induct)
  case less
  show ?case
  proof (cases s)
    case Nil
    then show ?thesis by simp
  next
    case (Cons x xs)
    show ?thesis
    proof (cases i)
      case 0
      then show ?thesis by simp
    next
      case (Suc j)
      show ?thesis
      proof (cases "\<exists>n. m' p (x # xs) = Some (Suc n)")
        case True
        then obtain n where n: "m' p (x # xs) = Some (Suc n)" by blast
        from assms obtain c rep' where r: "rep = c # rep'" "\<not> pat_char c"
          by (cases rep) (auto simp: rep_ok_def)
        from n have "\<exists>w. sub_from m' rep p s = c # w"
          by (simp add: Cons r(1))
        with less.prems r(2) show ?thesis
          by (auto simp: Suc)
      next
        case False
        then have c: "sub_from m' rep p (x # xs) = x # sub_from m' rep (Some x) xs"
          by (intro sub_from_copy) blast
        from less.prems have "list_all pat_char (take j (sub_from m' rep (Some x) xs))"
          unfolding Cons c Suc by simp
        from less.hyps [OF _ this] show ?thesis
          unfolding Cons c Suc by simp
      qed
    qed
  qed
qed

text \<open>
  After a clean prefix that ends with a word character, the next character of the output
  is the next character of the input: a bounded match cannot start there.
\<close>

lemma clean_next:
  assumes "rep_ok rep" "matcher_spec True shape' m'"
  shows "list_all pat_char (take i (sub_from m' rep p s)) \<Longrightarrow> is_word_opt (last_opt p (take i s)) \<Longrightarrow>
    take (Suc i) (sub_from m' rep p s) = take (Suc i) s"
proof (induction "length s" arbitrary: s p i rule: less_induct)
  case less
  show ?case
  proof (cases s)
    case Nil
    then show ?thesis by simp
  next
    case (Cons x xs)
    show ?thesis
    proof (cases "\<exists>n. m' p (x # xs) = Some (Suc n)")
      case True
      then obtain n where n: "m' p (x # xs) = Some (Suc n)" by blast
      from spec_Some(5) [OF assms(2) n] have np: "\<not> is_word_opt p" by simp
      from assms obtain c rep' where r: "rep = c # rep'" "\<not> pat_char c"
        by (cases rep) (auto simp: rep_ok_def)
      show ?thesis
      proof (cases i)
        case 0
        with less.prems(2) np show ?thesis by (simp add: last_opt_simps)
      next
        case (Suc j)
        from n have "\<exists>w. sub_from m' rep p s = c # w"
          by (simp add: Cons r(1))
        with less.prems(1) r(2) show ?thesis
          by (auto simp: Suc)
      qed
    next
      case False
      then have c: "sub_from m' rep p (x # xs) = x # sub_from m' rep (Some x) xs"
        by (intro sub_from_copy) blast
      show ?thesis
      proof (cases i)
        case 0
        then show ?thesis unfolding Cons c by simp
      next
        case (Suc j)
        from less.prems have "list_all pat_char (take j (sub_from m' rep (Some x) xs))"
          "is_word_opt (last_opt (Some x) (take j xs))"
          unfolding Cons c Suc by (simp_all add: last_opt_simps)
        from less.hyps [OF _ this] show ?thesis
          unfolding Cons c Suc by simp
      qed
    qed
  qed
qed

lemma first_opt_drop_take:
  "take (Suc i) t = take (Suc i) s \<Longrightarrow> first_opt (drop i t) = first_opt (drop i s)"
proof -
  have f: "first_opt (drop i u) = first_opt (drop i (take (Suc i) u))" for u :: string
    by (cases "drop i u") (simp_all add: drop_take)
  assume "take (Suc i) t = take (Suc i) s"
  then show ?thesis by (simp add: f [of t] f [of s])
qed

text \<open>
  A position that is copied and has no match in the input has none in the output:
  for a matcher without context, and for a bounded matcher when the substituted one
  is bounded too.
\<close>

lemma lookahead_free:
  assumes m: "matcher_spec False shape m" and r: "rep_ok rep"
    and none: "m p (x # xs) = None"
  shows "m q (x # sub_from m' rep (Some x) xs) = None"
proof (cases "m q (x # sub_from m' rep (Some x) xs)")
  case None
  then show ?thesis .
next
  case (Some k)
  let ?t = "sub_from m' rep (Some x) xs"
  from spec_Some(3) [OF m Some] obtain j where k: "k = Suc j" by (cases k) simp_all
  from spec_Some(4) [OF m Some] have "list_all pat_char (take j ?t)" by (simp add: k)
  from clean_prefix [OF r this] have e: "take j ?t = take j xs" .
  from spec_Some(1) [OF m Some] have "length (take j ?t) = j" by (simp add: k)
  with e have l: "j \<le> length xs" by (simp add: min_def split: if_splits)
  from spec_Some(2) [OF m Some] e have "shape (take k (x # xs))" by (simp add: k)
  from spec_intro [OF m _ this, of p] l have "m p (x # xs) = Some k" by (simp add: k)
  with none show ?thesis by simp
qed

lemma lookahead_bounded:
  assumes m: "matcher_spec True shape m" and m': "matcher_spec True shape' m'" and r: "rep_ok rep"
    and none: "m p (x # xs) = None"
  shows "m p (x # sub_from m' rep (Some x) xs) = None"
proof (cases "m p (x # sub_from m' rep (Some x) xs)")
  case None
  then show ?thesis .
next
  case (Some k)
  let ?t = "sub_from m' rep (Some x) xs"
  from spec_Some(3) [OF m Some] obtain j where k: "k = Suc j" by (cases k) simp_all
  from spec_Some(4) [OF m Some] have cl: "list_all pat_char (take j ?t)" by (simp add: k)
  from clean_prefix [OF r this] have e: "take j ?t = take j xs" .
  from spec_Some(1) [OF m Some] have "length (take j ?t) = j" by (simp add: k)
  with e have l: "j \<le> length xs" by (simp add: min_def split: if_splits)
  from spec_Some(2) [OF m Some] e have sh: "shape (take k (x # xs))" by (simp add: k)
  from spec_Some(8) [OF m Some] e have "is_word (last (x # take j xs))" by (simp add: k)
  then have "is_word_opt (last_opt (Some x) (take j xs))"
    by (auto simp: last_opt_def split: if_splits)
  from clean_next [OF r m' cl this] have "first_opt (drop j ?t) = first_opt (drop j xs)"
    by (rule first_opt_drop_take)
  with spec_Some(6) [OF m Some] have "\<not> is_word_opt (first_opt (drop k (x # xs)))"
    by (simp add: k)
  from spec_intro [OF m _ sh _ this, of p] l spec_Some(5) [OF m Some]
  have "m p (x # xs) = Some k" by (simp add: k)
  with none show ?thesis by simp
qed

subsection \<open>A substitution leaves no match behind\<close>

lemma spec_free_context:
  assumes "matcher_spec False shape m"
  shows "m q s = m q' s"
proof (cases "m q s")
  case None
  show ?thesis
  proof (cases "m q' s")
    case None
    with \<open>m q s = None\<close> show ?thesis by simp
  next
    case (Some k)
    from spec_intro [OF assms spec_Some(1,2) [OF assms Some], of q] None show ?thesis by simp
  qed
next
  case (Some k)
  from spec_intro [OF assms spec_Some(1,2) [OF assms Some], of q'] Some show ?thesis by simp
qed

lemma nomatch_free_context:
  assumes "matcher_spec False shape m"
  shows "nomatch m q s = nomatch m q' s"
  by (cases s) (simp_all add: spec_free_context [OF assms, of q _ q'])

lemma not_matched_None:
  assumes "matcher_spec bnd shape m" "\<forall>n. m p s \<noteq> Some (Suc n)"
  shows "m p s = None"
proof (cases "m p s")
  case None
  then show ?thesis .
next
  case (Some k)
  from spec_Some(3) [OF assms(1) Some] obtain n where "k = Suc n" by (cases k) simp_all
  with Some assms(2) show ?thesis by simp
qed

text \<open>
  After substituting the matches of \<open>m'\<close>, a matcher \<open>m\<close> without context has no match
  left when it is \<open>m'\<close> itself or had no match before.
\<close>

lemma nomatch_sub_free:
  assumes m: "matcher_spec False shape m" and r: "rep_ok rep"
  shows "m' = m \<or> nomatch m p s \<Longrightarrow> nomatch m q (sub_from m' rep p s)"
proof (induction "length s" arbitrary: s p q rule: less_induct)
  case less
  from r have rl: "list_all (\<lambda>c. \<not> pat_char c) rep" by (simp add: rep_ok_def)
  show ?case
  proof (cases s)
    case Nil
    then show ?thesis by simp
  next
    case (Cons x xs)
    show ?thesis
    proof (cases "\<exists>n. m' p (x # xs) = Some (Suc n)")
      case True
      then obtain n where n: "m' p (x # xs) = Some (Suc n)" by blast
      let ?l = "Some ((x # xs) ! n)"
      have "m' = m \<or> nomatch m ?l (drop n xs)"
      proof (cases "m' = m")
        case True
        then show ?thesis by simp
      next
        case False
        with less.prems have "nomatch m p s" by simp
        from nomatch_drop [OF this, of "Suc n"] have "nomatch m (last_opt p (take (Suc n) s)) (drop n xs)"
          by (simp add: Cons)
        then show ?thesis
          using nomatch_free_context [OF m, of "last_opt p (take (Suc n) s)" "drop n xs" ?l]
          by simp
      qed
      from less.hyps [OF _ this, of "last_opt q rep"] show ?thesis
        unfolding Cons sub_from_match [where m = m' and rep = rep, OF n] nomatch_rep [OF m rl]
        by simp
    next
      case False
      then have c: "sub_from m' rep p (x # xs) = x # sub_from m' rep (Some x) xs"
        by (intro sub_from_copy) blast
      have none: "m p (x # xs) = None"
      proof (cases "m' = m")
        case True
        with False show ?thesis by (intro not_matched_None [OF m]) simp
      next
        case False
        with less.prems show ?thesis by (simp add: Cons)
      qed
      have "m' = m \<or> nomatch m (Some x) xs"
        using less.prems by (auto simp: Cons)
      from less.hyps [OF _ this, of "Some x"] lookahead_free [OF m r none, of q m']
      show ?thesis
        unfolding Cons c by simp
    qed
  qed
qed

text \<open>
  The same for a bounded matcher \<open>m\<close>, when the substituted matcher is bounded too. The
  character before the output may differ from the one before the input when the input
  starts with a non-word character.
\<close>

lemma nomatch_sub_bounded:
  assumes m: "matcher_spec True shape m" and m': "matcher_spec True shape' m'" and r: "rep_ok rep"
  shows "m' = m \<or> nomatch m p s \<Longrightarrow> q = p \<or> \<not> is_word_opt (first_opt s) \<Longrightarrow>
    nomatch m q (sub_from m' rep p s)"
proof (induction "length s" arbitrary: s p q rule: less_induct)
  case less
  from r have rl: "list_all (\<lambda>c. \<not> pat_char c) rep" by (simp add: rep_ok_def)
  show ?case
  proof (cases s)
    case Nil
    then show ?thesis by simp
  next
    case (Cons x xs)
    show ?thesis
    proof (cases "\<exists>n. m' p (x # xs) = Some (Suc n)")
      case True
      then obtain n where n: "m' p (x # xs) = Some (Suc n)" by blast
      let ?l = "Some ((x # xs) ! n)"
      from spec_Some(1) [OF m' n] have len: "n < length s" by (simp add: Cons)
      have a: "m' = m \<or> nomatch m ?l (drop n xs)"
      proof (cases "m' = m")
        case True
        then show ?thesis by simp
      next
        case False
        with less.prems have "nomatch m p s" by simp
        from nomatch_drop [OF this, of "Suc n"] last_opt_take_Suc [OF len, of p]
        show ?thesis by (simp add: Cons)
      qed
      from spec_Some(6) [OF m' n] have b: "last_opt q rep = ?l \<or> \<not> is_word_opt (first_opt (drop n xs))"
        by simp
      from less.hyps [OF _ a b] show ?thesis
        unfolding Cons sub_from_match [where m = m' and rep = rep, OF n] nomatch_rep [OF m rl]
        by simp
    next
      case False
      then have c: "sub_from m' rep p (x # xs) = x # sub_from m' rep (Some x) xs"
        by (intro sub_from_copy) blast
      have none: "m p (x # xs) = None"
      proof (cases "m' = m")
        case True
        with False show ?thesis by (intro not_matched_None [OF m]) simp
      next
        case False
        with less.prems show ?thesis by (simp add: Cons)
      qed
      from lookahead_bounded [OF m m' r none] have lp: "m p (x # sub_from m' rep (Some x) xs) = None" .
      have lq: "m q (x # sub_from m' rep (Some x) xs) = None"
      proof (cases "q = p")
        case True
        with lp show ?thesis by simp
      next
        case False
        with less.prems(2) have nw: "\<not> is_word x" by (simp add: Cons)
        show ?thesis
        proof (cases "m q (x # sub_from m' rep (Some x) xs)")
          case None
          then show ?thesis .
        next
          case (Some k)
          from spec_Some(7) [OF m Some] nw show ?thesis by simp
        qed
      qed
      have "m' = m \<or> nomatch m (Some x) xs"
        using less.prems by (auto simp: Cons)
      from less.hyps [OF _ this, of "Some x"] lq
      show ?thesis
        unfolding Cons c by simp
    qed
  qed
qed

subsection \<open>The date, time and UUID patterns\<close>

lemma digit_hex: "is_digit c \<Longrightarrow> is_hex_lower c"
  by (auto simp: is_digit_def is_hex_lower_def Let_def)

lemma hex_word: "is_hex_lower c \<Longrightarrow> is_word c"
  by (auto simp: is_hex_lower_def is_word_def Let_def)

lemma digit_word: "is_digit c \<Longrightarrow> is_word c"
  by (simp add: digit_hex hex_word)

lemma cls_pat_char: "cls_pat c \<Longrightarrow> cls_ok c x \<Longrightarrow> pat_char x"
  by (cases c) (auto simp: pat_char_def digit_hex)

lemma last_opt_append: "last_opt p (u @ v) = last_opt (last_opt p u) v"
  by (simp add: last_opt_def)

lemma map_option_plus_0: "map_option ((+) (0::nat)) v = v"
  by (cases v) simp_all

lemma map_option_plus_Suc:
  "map_option Suc (map_option ((+) n) v) = map_option (\<lambda>a. Suc (n + a)) v"
  by (cases v) simp_all

lemma width_append: "width (r @ r') = width r + width r'"
proof (induction r)
  case Nil
  show ?case by simp
next
  case (Cons it r)
  then show ?case by (cases it) simp_all
qed

lemma map_option_plus_plus:
  "map_option ((+) (n::nat)) (map_option ((+) w) v) = map_option ((+) (n + w)) v"
  by (cases v) simp_all

lemma rmatch_Times:
  "rmatch (Times n c # r) p s =
     (if n \<le> length s \<and> list_all (cls_ok c) (take n s)
      then map_option ((+) n) (rmatch r (last_opt p (take n s)) (drop n s)) else None)"
proof (induction n arbitrary: p s)
  case 0
  show ?case by (simp add: last_opt_simps map_option_plus_0)
next
  case (Suc n)
  show ?case
  proof (cases s)
    case Nil
    then show ?thesis by simp
  next
    case (Cons x xs)
    then show ?thesis
      by (simp add: Suc last_opt_simps map_option_plus_Suc)
  qed
qed

lemma rmatch_fixed:
  "fixed r \<Longrightarrow>
   rmatch (r @ r2) p s =
     (if width r \<le> length s \<and> fmatch r (take (width r) s)
      then map_option ((+) (width r)) (rmatch r2 (last_opt p (take (width r) s)) (drop (width r) s))
      else None)"
proof (induction r arbitrary: p s)
  case Nil
  show ?case by (simp add: last_opt_simps map_option_plus_0)
next
  case (Cons it r)
  show ?case
  proof (cases it)
    case (One c)
    with Cons.prems have f: "fixed r" by simp
    show ?thesis
    proof (cases s)
      case Nil
      then show ?thesis by (simp add: One)
    next
      case (Cons x xs)
      then show ?thesis
        by (simp add: One Cons.IH [OF f] last_opt_simps map_option_plus_Suc)
    qed
  next
    case (Times n c)
    with Cons.prems have f: "fixed r" by simp
    have t: "take (n + width r) s = take n s @ take (width r) (drop n s)"
      by (simp add: take_add)
    have d: "drop n (take (n + width r) s) = take (width r) (drop n s)"
      by (simp add: drop_take)
    have lo: "last_opt (last_opt p (take n s)) (take (width r) (drop n s))
        = last_opt p (take (n + width r) s)"
      by (simp add: t last_opt_append)
    have dd: "drop (width r) (drop n s) = drop (n + width r) s"
      by (simp add: add.commute)
    show ?thesis
      unfolding Times append_Cons rmatch_Times Cons.IH [OF f] lo dd
      by (auto simp: d min_def map_option_plus_plus)
  next
    case (Plus c)
    with Cons.prems show ?thesis by simp
  next
    case WordB
    with Cons.prems show ?thesis by simp
  qed
qed

lemma fmatch_width: "fmatch r b \<Longrightarrow> length b = width r"
proof (induction r arbitrary: b)
  case Nil
  then show ?case by simp
next
  case (Cons it r)
  show ?case
  proof (cases it)
    case (One c)
    with Cons.prems Cons.IH show ?thesis by (cases b) auto
  next
    case (Times n c)
    with Cons.prems have "n \<le> length b" "fmatch r (drop n b)" by simp_all
    with Cons.IH [of "drop n b"] show ?thesis by (simp add: Times)
  next
    case (Plus c)
    with Cons.prems show ?thesis by simp
  next
    case WordB
    with Cons.prems show ?thesis by simp
  qed
qed

lemma fmatch_pat_char: "list_all item_pat r \<Longrightarrow> fmatch r b \<Longrightarrow> list_all pat_char b"
proof (induction r arbitrary: b)
  case Nil
  then show ?case by simp
next
  case (Cons it r)
  show ?case
  proof (cases it)
    case (One c)
    with Cons.prems Cons.IH show ?thesis
      by (cases b) (auto simp: cls_pat_char)
  next
    case (Times n c)
    with Cons.prems have a: "list_all (cls_ok c) (take n b)" "fmatch r (drop n b)" "cls_pat c" "list_all item_pat r"
      by simp_all
    from a(1,3) have "list_all pat_char (take n b)"
      by (auto simp: list_all_iff cls_pat_char)
    moreover from Cons.IH [OF a(4,2)] have "list_all pat_char (drop n b)" .
    ultimately have "list_all pat_char (take n b @ drop n b)"
      by (simp only: list_all_append)
    then show ?thesis by simp
  next
    case (Plus c)
    with Cons.prems show ?thesis by simp
  next
    case WordB
    with Cons.prems show ?thesis by simp
  qed
qed

lemma fmatch_hd: "fmatch (Times (Suc n) c # r) b \<Longrightarrow> cls_ok c (hd b)"
  by (cases b) simp_all

lemma fmatch_last: "fmatch (r @ [Times (Suc n) c]) b \<Longrightarrow> cls_ok c (last b)"
proof (induction r arbitrary: b)
  case Nil
  then have "length b = Suc n" "list_all (cls_ok c) b" by auto
  then show ?case by (cases b rule: rev_cases) simp_all
next
  case (Cons it r)
  show ?case
  proof (cases it)
    case (One c')
    with Cons.prems obtain x xs where b: "b = x # xs" "fmatch (r @ [Times (Suc n) c]) xs"
      by (cases b) auto
    from fmatch_width [OF b(2)] have "xs \<noteq> []" by (auto simp: width_append)
    with Cons.IH [OF b(2)] b(1) show ?thesis by simp
  next
    case (Times k c')
    with Cons.prems have d: "fmatch (r @ [Times (Suc n) c]) (drop k b)" by simp
    from fmatch_width [OF d] have "drop k b \<noteq> []" by (auto simp: width_append)
    with Cons.IH [OF d] show ?thesis by (simp add: last_drop)
  next
    case (Plus c')
    with Cons.prems show ?thesis by simp
  next
    case WordB
    with Cons.prems show ?thesis by simp
  qed
qed

lemma spec_fixed:
  assumes "fixed r" "0 < width r" "list_all item_pat r"
  shows "matcher_spec False (fmatch r) (rmatch r)"
proof -
  have m: "rmatch r p s = (if width r \<le> length s \<and> fmatch r (take (width r) s) then Some (width r) else None)"
    for p s
    using rmatch_fixed [OF assms(1), of "[]" p s] by simp
  have "(rmatch r p s = Some k) = (k \<le> length s \<and> fmatch r (take k s))" for p s k
  proof
    assume "rmatch r p s = Some k"
    then show "k \<le> length s \<and> fmatch r (take k s)"
      by (auto simp: m split: if_splits)
  next
    assume a: "k \<le> length s \<and> fmatch r (take k s)"
    with fmatch_width [of r "take k s"] have "k = width r" by simp
    with a show "rmatch r p s = Some k" by (simp add: m)
  qed
  moreover have "b \<noteq> [] \<and> list_all pat_char b" if "fmatch r b" for b
    using fmatch_width [OF that] fmatch_pat_char [OF assms(3) that] assms(2) by auto
  ultimately show ?thesis
    unfolding matcher_spec_def by simp
qed

lemma spec_fixed_bounded:
  assumes "fixed r" "0 < width r" "list_all item_pat r"
    and w: "\<And>b. fmatch r b \<Longrightarrow> is_word (hd b) \<and> is_word (last b)"
  shows "matcher_spec True (fmatch r) (rmatch (WordB # r @ [WordB]))"
proof -
  let ?w = "width r"
  have m: "rmatch (WordB # r @ [WordB]) p s =
      (if word_boundary p s \<and> ?w \<le> length s \<and> fmatch r (take ?w s)
          \<and> word_boundary (last_opt p (take ?w s)) (drop ?w s)
       then Some ?w else None)" for p s
    by (simp add: rmatch_fixed [OF assms(1)])
  have e: "(word_boundary p s \<and> word_boundary (last_opt p (take k s)) (drop k s))
      = (\<not> is_word_opt p \<and> \<not> is_word_opt (first_opt (drop k s)))"
    if "k \<le> length s" "fmatch r (take k s)" for p s k
  proof -
    from fmatch_width [OF that(2)] that(1) assms(2) have k: "k = ?w" "0 < k" by simp_all
    then have ne: "take k s \<noteq> []" "s \<noteq> []" using that(1) by auto
    then have "first_opt s = Some (hd (take k s))" by (cases s; cases k) simp_all
    moreover have "last_opt p (take k s) = Some (last (take k s))"
      using ne by (simp add: last_opt_def)
    ultimately show ?thesis
      using w [OF that(2)] by (simp add: word_boundary_def)
  qed
  have "(rmatch (WordB # r @ [WordB]) p s = Some k) =
      (k \<le> length s \<and> fmatch r (take k s) \<and>
        (\<not> is_word_opt p \<and> \<not> is_word_opt (first_opt (drop k s))))" for p s k
  proof
    assume a: "rmatch (WordB # r @ [WordB]) p s = Some k"
    then have k: "k = ?w" "?w \<le> length s" "fmatch r (take ?w s)"
      "word_boundary p s \<and> word_boundary (last_opt p (take ?w s)) (drop ?w s)"
      unfolding m by (auto split: if_splits)
    with e [of ?w s p] show "k \<le> length s \<and> fmatch r (take k s) \<and>
        (\<not> is_word_opt p \<and> \<not> is_word_opt (first_opt (drop k s)))"
      by simp
  next
    assume a: "k \<le> length s \<and> fmatch r (take k s) \<and>
        (\<not> is_word_opt p \<and> \<not> is_word_opt (first_opt (drop k s)))"
    with fmatch_width [of r "take k s"] have k: "k = ?w" by simp
    from a e [of k s p] have "word_boundary p s \<and> word_boundary (last_opt p (take k s)) (drop k s)"
      by simp
    with a k show "rmatch (WordB # r @ [WordB]) p s = Some k"
      unfolding m by simp
  qed
  moreover have "b \<noteq> [] \<and> list_all pat_char b \<and> is_word (hd b) \<and> is_word (last b)" if "fmatch r b" for b
    using fmatch_width [OF that] fmatch_pat_char [OF assms(3) that] assms(2) w [OF that] by auto
  ultimately show ?thesis
    unfolding matcher_spec_def by simp
qed

lemma spec_date: "matcher_spec False (fmatch date_pattern) (rmatch date_pattern)"
  by (rule spec_fixed) (simp_all add: date_pattern_def pat_char_def)

lemma spec_time: "matcher_spec False (fmatch time_pattern) (rmatch time_pattern)"
  by (rule spec_fixed) (simp_all add: time_pattern_def pat_char_def)

lemma spec_uuid: "matcher_spec True (fmatch uuid_core) (rmatch uuid_pattern)"
proof -
  have p: "uuid_pattern = WordB # uuid_core @ [WordB]"
    by (simp add: uuid_pattern_def uuid_core_def)
  have h: "is_word (hd b) \<and> is_word (last b)" if "fmatch uuid_core b" for b
  proof -
    have "uuid_core = Times (Suc 7) HexLower # tl uuid_core"
      by (simp add: uuid_core_def)
    with that have "fmatch (Times (Suc 7) HexLower # tl uuid_core) b" by simp
    from fmatch_hd [OF this] have 1: "is_hex_lower (hd b)" by simp
    have "uuid_core = butlast uuid_core @ [Times (Suc 11) HexLower]"
      by (simp add: uuid_core_def)
    with that have "fmatch (butlast uuid_core @ [Times (Suc 11) HexLower]) b" by simp
    from fmatch_last [OF this] have "is_hex_lower (last b)" by simp
    with 1 show ?thesis by (simp add: hex_word)
  qed
  show ?thesis
    unfolding p
    by (rule spec_fixed_bounded) (simp_all add: uuid_core_def pat_char_def h [unfolded uuid_core_def])
qed

subsection \<open>The address and number patterns\<close>

lemma map_option_plus_1: "map_option ((+) (Suc 0)) v = map_option Suc v"
  by (cases v) simp_all

lemma cls_ok_Digit: "cls_ok Digit = is_digit"
  by (rule ext) simp

text \<open>
  A greedy repetition takes the whole run when the rest of the pattern cannot start
  inside the run.
\<close>

lemma rmatch_Plus:
  assumes "\<And>x y ys. cls_ok c x \<Longrightarrow> cls_ok c y \<Longrightarrow> rmatch r (Some x) (y # ys) = None"
  shows "rmatch (Plus c # r) p s =
     (if takeWhile (cls_ok c) s = [] then None
      else map_option ((+) (length (takeWhile (cls_ok c) s)))
             (rmatch r (Some (last (takeWhile (cls_ok c) s))) (dropWhile (cls_ok c) s)))"
proof (induction s arbitrary: p)
  case Nil
  show ?case by simp
next
  case (Cons x xs)
  show ?case
  proof (cases "cls_ok c x")
    case False
    then show ?thesis by simp
  next
    case True
    show ?thesis
    proof (cases "takeWhile (cls_ok c) xs = []")
      case e: True
      then have d: "dropWhile (cls_ok c) xs = xs"
        by (cases xs) (auto split: if_splits)
      from e show ?thesis
        by (simp add: True Cons.IH d map_option_plus_1)
    next
      case ne: False
      then obtain y ys where xs: "xs = y # ys" "cls_ok c y"
        by (cases xs) (auto split: if_splits)
      from assms [OF True xs(2)] have "rmatch r (Some x) xs = None"
        by (simp add: xs(1))
      with ne show ?thesis
        by (simp add: True Cons.IH map_option_plus_Suc split: option.split)
    qed
  qed
qed

lemma takeWhile_prefix:
  assumes "list_all P ds" "rest = [] \<or> \<not> P (hd rest)"
  shows "takeWhile P (ds @ rest) = ds" "dropWhile P (ds @ rest) = rest"
proof -
  from assms(2) have "takeWhile P rest = []" "dropWhile P rest = rest"
    by (cases rest; simp)+
  with assms(1) show "takeWhile P (ds @ rest) = ds" "dropWhile P (ds @ rest) = rest"
    by (simp_all add: list_all_iff takeWhile_append2 dropWhile_append2)
qed

lemma not_word_not_digit: "\<not> is_word_opt (first_opt s) \<Longrightarrow> s = [] \<or> \<not> is_digit (hd s)"
  by (cases s) (auto simp: digit_word)

lemma tail_spec_rejects_digit:
  assumes "tail_spec T r" "is_digit x" "is_digit y"
  shows "rmatch r (Some x) (y # ys) = None"
proof (cases "rmatch r (Some x) (y # ys)")
  case None
  then show ?thesis .
next
  case (Some k)
  with assms(1,2) have a: "T (take k (y # ys))" "\<not> is_word_opt (first_opt (drop k (y # ys)))"
    unfolding tail_spec_def by blast+
  from assms(1) a(1) have b: "take k (y # ys) = [] \<or> \<not> is_digit (hd (take k (y # ys)))"
    unfolding tail_spec_def by blast
  show ?thesis
  proof (cases k)
    case 0
    with a(2) assms(3) show ?thesis by (simp add: digit_word)
  next
    case (Suc j)
    with b assms(3) show ?thesis by simp
  qed
qed

text \<open>A run of digits followed by a continuation of shape \<open>T\<close>.\<close>

lemma plus_digit_spec:
  assumes t: "tail_spec T r"
  shows "(rmatch (Plus Digit # r) q s = Some k) =
     (k \<le> length s \<and> digits_then T (take k s) \<and> \<not> is_word_opt (first_opt (drop k s)))"
proof -
  let ?ds = "takeWhile is_digit s" and ?rest = "dropWhile is_digit s"
  have m: "rmatch (Plus Digit # r) q s =
     (if ?ds = [] then None
      else map_option ((+) (length ?ds)) (rmatch r (Some (last ?ds)) ?rest))"
    using rmatch_Plus [of Digit r q s] tail_spec_rejects_digit [OF t]
    unfolding cls_ok_Digit by simp
  from t have ts: "(rmatch r (Some x) u = Some j) =
      (j \<le> length u \<and> T (take j u) \<and> \<not> is_word_opt (first_opt (drop j u)))" if "is_digit x" for x u j
    using that unfolding tail_spec_def by blast
  from t have tp: "b = [] \<or> \<not> is_digit (hd b)" if "T b" for b
    using that unfolding tail_spec_def by blast
  show ?thesis
  proof
    assume a: "rmatch (Plus Digit # r) q s = Some k"
    then have ne: "?ds \<noteq> []" by (auto simp: m split: if_splits)
    with a obtain j where j: "rmatch r (Some (last ?ds)) ?rest = Some j" "k = length ?ds + j"
      by (auto simp: m)
    from ne have "last ?ds \<in> set ?ds" by simp
    then have "is_digit (last ?ds)" by (meson set_takeWhileD)
    from ts [OF this] j(1) have r: "j \<le> length ?rest" "T (take j ?rest)"
      "\<not> is_word_opt (first_opt (drop j ?rest))" by simp_all
    have s: "s = ?ds @ ?rest" by simp
    have tk: "take k s = ?ds @ take j ?rest"
      by (subst s) (simp add: j(2) del: takeWhile_dropWhile_id)
    have dk: "drop k s = drop j ?rest"
      by (subst s) (simp add: j(2) del: takeWhile_dropWhile_id)
    have len: "k \<le> length s"
      using r(1) by (subst s) (simp add: j(2) del: takeWhile_dropWhile_id)
    have "digits_then T (take k s)"
      unfolding digits_then_def tk using ne r(2)
      by (intro exI [of _ ?ds] exI [of _ "take j ?rest"]) (auto simp: list_all_iff dest: set_takeWhileD)
    with len r(3) dk show "k \<le> length s \<and> digits_then T (take k s) \<and> \<not> is_word_opt (first_opt (drop k s))"
      by simp
  next
    assume a: "k \<le> length s \<and> digits_then T (take k s) \<and> \<not> is_word_opt (first_opt (drop k s))"
    then obtain ds b' where b: "take k s = ds @ b'" "ds \<noteq> []" "list_all is_digit ds" "T b'"
      unfolding digits_then_def by blast
    have s: "s = ds @ (b' @ drop k s)"
      using b(1) by (metis append_assoc append_take_drop_id)
    have "b' @ drop k s = [] \<or> \<not> is_digit (hd (b' @ drop k s))"
    proof (cases b')
      case Nil
      with a not_word_not_digit [of "drop k s"] show ?thesis by simp
    next
      case (Cons c cs)
      with tp [OF b(4)] show ?thesis by simp
    qed
    from takeWhile_prefix [OF b(3) this] s
    have tw: "?ds = ds" "?rest = b' @ drop k s" by simp_all
    from b(2,3) have "is_digit (last ds)" by (simp add: list_all_iff)
    moreover have "length b' \<le> length (b' @ drop k s)"
      by (simp only: length_append le_add1)
    moreover have "T (take (length b') (b' @ drop k s))"
      "\<not> is_word_opt (first_opt (drop (length b') (b' @ drop k s)))"
      using a b(4) by simp_all
    ultimately have "rmatch r (Some (last ds)) (b' @ drop k s) = Some (length b')"
      using ts [of "last ds" "b' @ drop k s" "length b'"] by blast
    moreover from a b(1) have "k = length ds + length b'"
      by (metis length_append length_take min.absorb2)
    ultimately show "rmatch (Plus Digit # r) q s = Some k"
      using b(2) by (simp add: m tw)
  qed
qed

lemma tail_spec_base: "tail_spec (\<lambda>b. b = []) [WordB]"
proof -
  have "(rmatch [WordB] (Some x) s = Some k) =
      (k \<le> length s \<and> take k s = [] \<and> \<not> is_word_opt (first_opt (drop k s)))"
    if "is_digit x" for x s k
    using digit_word [OF that] by (cases k) (auto simp: word_boundary_def)
  then show ?thesis
    unfolding tail_spec_def by simp
qed

lemma tail_spec_step:
  assumes t: "tail_spec T r"
  shows "tail_spec (dot_then (digits_then T)) (One (Lit CHR ''.'') # Plus Digit # r)"
proof -
  have "(rmatch (One (Lit CHR ''.'') # Plus Digit # r) (Some x) s = Some k) =
      (k \<le> length s \<and> dot_then (digits_then T) (take k s) \<and> \<not> is_word_opt (first_opt (drop k s)))"
    for x s k
  proof (cases s)
    case Nil
    then show ?thesis by (simp add: dot_then_def)
  next
    case (Cons c cs)
    show ?thesis
    proof (cases k)
      case 0
      then show ?thesis
        by (auto simp: Cons dot_then_def)
    next
      case (Suc j)
      then show ?thesis
        using plus_digit_spec [OF t, of "Some CHR ''.''" cs j]
        by (auto simp: Cons dot_then_def)
    qed
  qed
  moreover have "list_all pat_char b \<and> (b = [] \<or> (\<not> is_digit (hd b) \<and> is_digit (last b)))"
    if "dot_then (digits_then T) b" for b
  proof -
    from that obtain ds b' where b: "b = CHR ''.'' # ds @ b'" "ds \<noteq> []" "list_all is_digit ds" "T b'"
      unfolding dot_then_def digits_then_def by blast
    from t b(4) have tb: "list_all pat_char b'" "b' = [] \<or> is_digit (last b')"
      unfolding tail_spec_def by blast+
    from b(3) have "list_all pat_char ds"
      by (auto simp: list_all_iff pat_char_def digit_hex)
    moreover have "\<not> is_digit CHR ''.''" "pat_char CHR ''.''"
      by (simp_all add: is_digit_def pat_char_def)
    moreover from b(2,3) tb(2) have "is_digit (last (ds @ b'))"
      by (cases "b' = []") (auto simp: list_all_iff)
    ultimately show ?thesis
      using tb(1) b(2) by (simp add: b(1))
  qed
  ultimately show ?thesis
    unfolding tail_spec_def by simp
qed

lemma spec_digits:
  assumes t: "tail_spec T r"
  shows "matcher_spec True (digits_then T) (rmatch (WordB # Plus Digit # r))"
proof -
  have h: "b \<noteq> [] \<and> list_all pat_char b \<and> is_digit (hd b) \<and> is_digit (last b)"
    if "digits_then T b" for b
  proof -
    from that obtain ds b' where b: "b = ds @ b'" "ds \<noteq> []" "list_all is_digit ds" "T b'"
      unfolding digits_then_def by blast
    from t b(4) have tb: "list_all pat_char b'" "b' = [] \<or> is_digit (last b')"
      unfolding tail_spec_def by blast+
    from b(3) have "list_all pat_char ds"
      by (auto simp: list_all_iff pat_char_def digit_hex)
    moreover from b(2,3) tb(2) have "is_digit (last (ds @ b'))" "is_digit (hd (ds @ b'))"
      by (cases "b' = []"; auto simp: list_all_iff)+
    ultimately show ?thesis
      using tb(1) b(2) by (simp add: b(1))
  qed
  have "(rmatch (WordB # Plus Digit # r) p s = Some k) =
      (k \<le> length s \<and> digits_then T (take k s) \<and>
        (\<not> is_word_opt p \<and> \<not> is_word_opt (first_opt (drop k s))))" for p s k
  proof (cases "k \<le> length s \<and> digits_then T (take k s)")
    case True
    with h [of "take k s"] have "take k s \<noteq> []" "is_digit (hd (take k s))" by blast+
    then have "first_opt s = Some (hd (take k s))" by (cases s; cases k) simp_all
    with \<open>is_digit (hd (take k s))\<close> have "word_boundary p s = (\<not> is_word_opt p)"
      by (simp add: word_boundary_def digit_word)
    with True plus_digit_spec [OF t, of p s k] show ?thesis by auto
  next
    case False
    with plus_digit_spec [OF t, of p s k] show ?thesis by auto
  qed
  with h show ?thesis
    unfolding matcher_spec_def by (simp add: digit_word)
qed

lemma spec_num: "matcher_spec True num_shape (rmatch num_pattern)"
  unfolding num_shape_def num_pattern_def
  by (rule spec_digits [OF tail_spec_base])

lemma spec_ip: "matcher_spec True ip_shape (rmatch ip_pattern)"
  unfolding ip_shape_def ip_pattern_def
  by (rule spec_digits [OF tail_spec_step [OF tail_spec_step [OF tail_spec_step [OF tail_spec_base]]]])

subsection \<open>Two passes of the five rules\<close>

lemma normalize_message_unfold:
  "normalize_message x =
     re_sub num_pattern ''<NUM>'' (re_sub ip_pattern ''<IP>'' (re_sub uuid_pattern ''<UUID>''
       (re_sub time_pattern ''<TIME>'' (re_sub date_pattern ''<DATE>'' x))))"
  by (simp add: normalize_message_def NORMALIZE_PATTERNS_def)

lemma rep_ok_replacements:
  "rep_ok ''<DATE>''" "rep_ok ''<TIME>''" "rep_ok ''<UUID>''" "rep_ok ''<IP>''" "rep_ok ''<NUM>''"
  by (simp_all add: rep_ok_def pat_char_def is_hex_lower_def)

lemma re_sub_nomatch: "nomatch (rmatch r) None s \<Longrightarrow> re_sub r rep s = s"
  by (simp add: re_sub_def sub_from_nomatch)

lemma nomatch_re_sub_free:
  assumes "matcher_spec False shape (rmatch r)" "rep_ok rep"
    and "r' = r \<or> nomatch (rmatch r) None s"
  shows "nomatch (rmatch r) None (re_sub r' rep s)"
  unfolding re_sub_def using assms(3)
  by (intro nomatch_sub_free [OF assms(1,2)]) auto

lemma nomatch_re_sub_bounded:
  assumes "matcher_spec True shape (rmatch r)" "matcher_spec True shape' (rmatch r')" "rep_ok rep"
    and "r' = r \<or> nomatch (rmatch r) None s"
  shows "nomatch (rmatch r) None (re_sub r' rep s)"
  unfolding re_sub_def using assms(4)
  by (intro nomatch_sub_bounded [OF assms(1,2,3)]) auto

text \<open>After one pass no rule has a match left.\<close>

lemma normalize_message_nomatch:
  "nomatch (rmatch date_pattern) None (normalize_message x)"
  "nomatch (rmatch time_pattern) None (normalize_message x)"
  "nomatch (rmatch uuid_pattern) None (normalize_message x)"
  "nomatch (rmatch ip_pattern) None (normalize_message x)"
  "nomatch (rmatch num_pattern) None (normalize_message x)"
proof -
  let ?s1 = "re_sub date_pattern ''<DATE>'' x"
  let ?s2 = "re_sub time_pattern ''<TIME>'' ?s1"
  let ?s3 = "re_sub uuid_pattern ''<UUID>'' ?s2"
  let ?s4 = "re_sub ip_pattern ''<IP>'' ?s3"
  let ?s5 = "re_sub num_pattern ''<NUM>'' ?s4"
  note r = rep_ok_replacements
  have d1: "nomatch (rmatch date_pattern) None ?s1"
    by (rule nomatch_re_sub_free [OF spec_date r(1)]) simp
  have d2: "nomatch (rmatch date_pattern) None ?s2"
    by (rule nomatch_re_sub_free [OF spec_date r(2)]) (simp add: d1)
  have d3: "nomatch (rmatch date_pattern) None ?s3"
    by (rule nomatch_re_sub_free [OF spec_date r(3)]) (simp add: d2)
  have d4: "nomatch (rmatch date_pattern) None ?s4"
    by (rule nomatch_re_sub_free [OF spec_date r(4)]) (simp add: d3)
  have t2: "nomatch (rmatch time_pattern) None ?s2"
    by (rule nomatch_re_sub_free [OF spec_time r(2)]) simp
  have t3: "nomatch (rmatch time_pattern) None ?s3"
    by (rule nomatch_re_sub_free [OF spec_time r(3)]) (simp add: t2)
  have t4: "nomatch (rmatch time_pattern) None ?s4"
    by (rule nomatch_re_sub_free [OF spec_time r(4)]) (simp add: t3)
  have u3: "nomatch (rmatch uuid_pattern) None ?s3"
    by (rule nomatch_re_sub_bounded [OF spec_uuid spec_uuid r(3)]) simp
  have u4: "nomatch (rmatch uuid_pattern) None ?s4"
    by (rule nomatch_re_sub_bounded [OF spec_uuid spec_ip r(4)]) (simp add: u3)
  have i4: "nomatch (rmatch ip_pattern) None ?s4"
    by (rule nomatch_re_sub_bounded [OF spec_ip spec_ip r(4)]) simp
  show "nomatch (rmatch date_pattern) None (normalize_message x)"
    unfolding normalize_message_unfold
    by (rule nomatch_re_sub_free [OF spec_date r(5)]) (simp add: d4)
  show "nomatch (rmatch time_pattern) None (normalize_message x)"
    unfolding normalize_message_unfold
    by (rule nomatch_re_sub_free [OF spec_time r(5)]) (simp add: t4)
  show "nomatch (rmatch uuid_pattern) None (normalize_message x)"
    unfolding normalize_message_unfold
    by (rule nomatch_re_sub_bounded [OF spec_uuid spec_num r(5)]) (simp add: u4)
  show "nomatch (rmatch ip_pattern) None (normalize_message x)"
    unfolding normalize_message_unfold
    by (rule nomatch_re_sub_bounded [OF spec_ip spec_num r(5)]) (simp add: i4)
  show "nomatch (rmatch num_pattern) None (normalize_message x)"
    unfolding normalize_message_unfold
    by (rule nomatch_re_sub_bounded [OF spec_num spec_num r(5)]) simp
qed

text \<open>
  C2. The normalizer is idempotent: the five rules (ISO date, time, UUID, IPv4 address,
  digit run, in this order) applied to an already normalized message change nothing.
\<close>

theorem C2_normalize_idempotent:
  "normalize_message (normalize_message x) = normalize_message x"
proof -
  let ?y = "normalize_message x"
  note n = normalize_message_nomatch [of x]
  have "normalize_message ?y =
     re_sub num_pattern ''<NUM>'' (re_sub ip_pattern ''<IP>'' (re_sub uuid_pattern ''<UUID>''
       (re_sub time_pattern ''<TIME>'' (re_sub date_pattern ''<DATE>'' ?y))))"
    by (rule normalize_message_unfold)
  also have "re_sub date_pattern ''<DATE>'' ?y = ?y"
    by (rule re_sub_nomatch [OF n(1)])
  also have "re_sub time_pattern ''<TIME>'' ?y = ?y"
    by (rule re_sub_nomatch [OF n(2)])
  also have "re_sub uuid_pattern ''<UUID>'' ?y = ?y"
    by (rule re_sub_nomatch [OF n(3)])
  also have "re_sub ip_pattern ''<IP>'' ?y = ?y"
    by (rule re_sub_nomatch [OF n(4)])
  also have "re_sub num_pattern ''<NUM>'' ?y = ?y"
    by (rule re_sub_nomatch [OF n(5)])
  finally show ?thesis .
qed

section \<open>Malformed events\<close>

subsection \<open>The typed model inside the wider one\<close>

lemma map_update_snd:
  "map (\<lambda>(k, v). (k, f v)) (AList.update key val al)
     = AList.update key (f val) (map (\<lambda>(k, v). (k, f v)) al)"
  by (induction al) auto

lemma map_of_map_snd:
  "map_of (map (\<lambda>(k, v). (k, f v)) al) key = map_option f (map_of al key)"
  by (induction al) auto

lemma py_text_simps:
  "py_text [] = []"
  "py_text (c # s) = Ch c # py_text s"
  "py_text (s @ t) = py_text s @ py_text t"
  "length (py_text s) = length s"
  "drop n (py_text s) = py_text (drop n s)"
  by (simp_all add: py_text_def drop_map)

lemma py_text_eq: "(py_text s = py_text t) = (s = t)"
  unfolding py_text_def by (simp add: inj_map_eq_map inj_on_def)

lemma py_chars_text: "py_chars (py_text s) = Some s"
  by (induction s) (simp_all add: py_text_simps)

lemma py_md5_12_text: "py_md5_12 (py_text s) = Inr (md5_12 s)"
  by (simp add: py_md5_12_def py_encode_def py_chars_text md5_12_def)

lemma py_is_word_opt_Ch: "py_is_word_opt (map_option Ch p) = is_word_opt p"
  by (cases p) simp_all

lemma py_word_boundary_text:
  "py_word_boundary (map_option Ch p) (py_text s) = word_boundary p s"
proof -
  have "py_is_word_opt (py_first_opt (py_text s)) = is_word_opt (first_opt s)"
    by (cases s) (simp_all add: py_text_simps)
  then show ?thesis
    by (simp add: py_word_boundary_def word_boundary_def py_is_word_opt_Ch)
qed

lemma py_rmatch_text: "py_rmatch r (map_option Ch p) (py_text s) = rmatch r p s"
proof (induction r p s rule: rmatch.induct)
  case (1 prev s)
  show ?case by simp
next
  case (2 r prev s)
  then show ?case by (simp add: py_word_boundary_text)
next
  case (3 c r prev)
  show ?case by (simp add: py_text_simps)
next
  case (4 c r prev x xs)
  then show ?case
    by (auto simp: py_text_simps split: option.splits)
next
  case (5 c r prev s)
  then show ?case by simp
next
  case (6 n c r prev)
  show ?case by (simp add: py_text_simps)
next
  case (7 n c r prev x xs)
  then show ?case
    by (auto simp: py_text_simps split: option.splits)
next
  case (8 c r prev)
  show ?case by (simp add: py_text_simps)
next
  case (9 c r prev x xs)
  then show ?case
    by (auto simp: py_text_simps split: option.splits)
qed

lemma py_search_from_text:
  "py_search_from r (map_option Ch p) (py_text s) = search_from r p s"
proof (induction s arbitrary: p)
  case Nil
  from py_rmatch_text [of r p "[]"] show ?case by (simp add: py_text_simps)
next
  case (Cons x xs)
  from py_rmatch_text [of r p "x # xs"] Cons [of "Some x"] show ?case
    by (simp add: py_text_simps)
qed

lemma py_sub_from_text:
  "py_sub_from r (py_text rep) (map_option Ch p) (py_text s) = py_text (sub_from (rmatch r) rep p s)"
proof (induction "length s" arbitrary: s p rule: less_induct)
  case less
  show ?case
  proof (cases s)
    case Nil
    then show ?thesis by (simp add: py_text_simps)
  next
    case (Cons x xs)
    have m: "py_rmatch r (map_option Ch p) (Ch x # py_text xs) = rmatch r p (x # xs)"
      using py_rmatch_text [of r p "x # xs"] by (simp add: py_text_simps)
    show ?thesis
    proof (cases "\<exists>n. rmatch r p (x # xs) = Some (Suc n)")
      case True
      then obtain n where n: "rmatch r p (x # xs) = Some (Suc n)" by blast
      have l: "(Ch x # py_text xs) ! n = Ch ((x # xs) ! n)" if "n < Suc (length xs)"
        using that by (cases n) (simp_all add: py_text_def)
      show ?thesis
      proof (cases "n < Suc (length xs)")
        case True
        from less [of "drop n xs" "Some ((x # xs) ! n)"] show ?thesis
          by (simp add: Cons py_text_simps m n l [OF True])
      next
        case False
        then have "drop n xs = []" by simp
        then show ?thesis
          by (simp add: Cons py_text_simps m n)
      qed
    next
      case False
      then have c: "sub_from (rmatch r) rep p (x # xs) = x # sub_from (rmatch r) rep (Some x) xs"
        by (intro sub_from_copy) blast
      from False m have "\<forall>n. py_rmatch r (map_option Ch p) (Ch x # py_text xs) \<noteq> Some (Suc n)"
        by simp
      then have "py_sub_from r (py_text rep) (map_option Ch p) (Ch x # py_text xs)
          = Ch x # py_sub_from r (py_text rep) (Some (Ch x)) (py_text xs)"
        by (cases "py_rmatch r (map_option Ch p) (Ch x # py_text xs)") (auto split: nat.split)
      then have "py_sub_from r (py_text rep) (map_option Ch p) (py_text (x # xs))
          = Ch x # py_sub_from r (py_text rep) (Some (Ch x)) (py_text xs)"
        by (simp only: py_text_simps(2))
      also have "\<dots> = Ch x # py_text (sub_from (rmatch r) rep (Some x) xs)"
        using less [of xs "Some x"] by (simp add: Cons)
      also have "\<dots> = py_text (x # sub_from (rmatch r) rep (Some x) xs)"
        by (simp only: py_text_simps(2))
      also have "\<dots> = py_text (sub_from (rmatch r) rep p (x # xs))"
        by (simp only: c)
      finally show ?thesis
        by (simp only: Cons)
    qed
  qed
qed

lemma py_re_sub_text: "py_re_sub r rep (py_text s) = py_text (re_sub r rep s)"
  using py_sub_from_text [of r rep None s] by (simp add: py_re_sub_def re_sub_def)

lemma py_normalize_message_text:
  "py_normalize_message (py_text s) = py_text (normalize_message s)"
  by (simp add: py_normalize_message_def normalize_message_def NORMALIZE_PATTERNS_def py_re_sub_text)

lemma py_lower_text: "py_lower (py_text s) = py_text (lower s)"
  by (simp add: py_lower_def lower_def py_text_def)

lemma py_is_noise_text:
  "list_ex (\<lambda>p. py_re_search p (py_lower (py_text (entry_message e)))) NOISE_PATTERNS = is_noise e"
  using py_search_from_text [of _ None]
  by (simp add: is_noise_def py_lower_text py_re_search_def re_search_def)

text \<open>On events and stores of the typed model the two readings of the code agree.\<close>

lemma py_process_alert_typed:
  "py_process_alert (py_alert a) (py_deduplicator d)
     = (Inr (fst (process_alert a d)), py_deduplicator (snd (process_alert a d)))"
proof -
  let ?s = "get_signature a"
  have "py_get_signature (py_alert a)
      = py_md5_12 (py_text (alert_name a @ ''|'' @ severity_value (alert_severity a)))"
    by (simp add: py_get_signature_def py_alert_def py_text_simps)
  also have "\<dots> = Inr ?s"
    unfolding get_signature_def by (rule py_md5_12_text)
  finally have s: "py_get_signature (py_alert a) = Inr ?s" .
  have g: "map_of (py_groups (py_deduplicator d)) ?s = map_option py_group (map_of (groups d) ?s)"
    by (simp add: py_deduplicator_def map_of_map_snd)
  have f: "py_timestamp (py_alert a) = Some (Naive (alert_timestamp a))"
    "py_service (py_alert a) = Some (py_text (alert_service a))"
    "py_name (py_alert a) = Some (py_text (alert_name a))"
    "py_severity (py_alert a) = Some (alert_severity a)"
    by (simp_all add: py_alert_def)
  have inj: "(Some (py_text x) \<in> (\<lambda>s. Some (py_text s)) ` A) = (x \<in> A)" for x A
    by (auto simp: py_text_eq)
  show ?thesis
  proof (cases "map_of (groups d) ?s")
    case None
    then show ?thesis
      by (simp add: py_process_alert_def s g f process_alert_upsert upsert_sent_def upsert_group_def)
        (simp add: py_deduplicator_def map_update_snd py_group_def)
  next
    case (Some grp)
    have l: "pg_last_seen (py_group grp) = Some (Naive (group_last_seen grp))"
      by (simp add: py_group_def)
    show ?thesis
    proof (cases "alert_timestamp a - group_last_seen grp < SUPPRESSION_WINDOW")
      case True
      with Some show ?thesis
        by (simp add: py_process_alert_def s g f l process_alert_upsert upsert_sent_def upsert_group_def)
          (simp add: py_deduplicator_def map_update_snd py_group_def inj)
    next
      case False
      with Some show ?thesis
        by (simp add: py_process_alert_def s g f l process_alert_upsert upsert_sent_def upsert_group_def)
          (simp add: py_deduplicator_def map_update_snd py_group_def)
    qed
  qed
qed

lemma py_classify_typed:
  "py_classify (py_entry e) (py_classifier c)
     = (Inr (fst (classify e c)), py_classifier (snd (classify e c)))"
proof -
  have m: "pe_message (py_entry e) = Some (py_text (entry_message e))"
    "pe_timestamp (py_entry e) = Some (Naive (entry_timestamp e))"
    by (simp_all add: py_entry_def)
  show ?thesis
  proof (cases "is_noise e")
    case True
    then show ?thesis
      by (simp add: py_classify_def classify_def m py_is_noise_text py_classifier_def)
  next
    case False
    let ?s = "md5_12 (normalize_message (entry_message e))"
    show ?thesis
    proof (cases "map_of (clusters c) ?s")
      case None
      then have "map_of (py_clusters (py_classifier c)) ?s = None"
        by (simp add: py_classifier_def map_of_map_snd)
      with None False show ?thesis
        by (simp add: py_classify_def classify_def m py_is_noise_text py_normalize_message_text
            py_md5_12_text Let_def)
          (simp add: py_classifier_def map_update_snd py_cluster_def m)
    next
      case (Some cl)
      then have "map_of (py_clusters (py_classifier c)) ?s = Some (py_cluster cl)"
        by (simp add: py_classifier_def map_of_map_snd)
      with Some False show ?thesis
        by (simp add: py_classify_def classify_def m py_is_noise_text py_normalize_message_text
            py_md5_12_text Let_def)
          (simp add: py_classifier_def map_update_snd py_cluster_def m)
    qed
  qed
qed

subsection \<open>What is rejected, and what it leaves behind\<close>





end
